theory Spec2Isabelle
  imports Complex_Main "HOL-Library.Log_Nat"
begin

section \<open>Numbers\<close>

text \<open>
  The searches compute with JavaScript numbers, that is with doubles. The values that
  occur are the terrain weights (1, 1.5, 2, 2.5, 3, 4), sums of them, Manhattan distances,
  and the sentinel \<^verbatim>\<open>Infinity\<close> (the initial \<^verbatim>\<open>distance\<close> of a cell, the weight of
  a building). A number is modelled as a rational or \<open>Infinity\<close>; NaN and negative
  infinity are outside the model.

  Two additions are defined. \<open>js_add\<close> is the sum without rounding: it is the sum
  that \<^verbatim>\<open>a + b\<close> computes whenever that sum is a double, as for the small multiples of
  0.5 above. \<open>double_add\<close> (section "Addition of doubles") rounds the sum to the nearest
  double and overflows to \<^verbatim>\<open>Infinity\<close>; the claims about costs, where rounding
  matters, are settled for the run with \<open>double_add\<close>.
\<close>

datatype jsnum = Fin rat | Infinity

text \<open>\<^verbatim>\<open>a + b\<close> on numbers, without rounding.\<close>

fun js_add :: "jsnum \<Rightarrow> jsnum \<Rightarrow> jsnum" where
  "js_add (Fin a) (Fin b) = Fin (a + b)"
| "js_add _ _ = Infinity"

text \<open>
  The order of numbers: \<^verbatim>\<open>a < b\<close>, and the order that the comparator
  \<^verbatim>\<open>(a, b) => a.totalCost - b.totalCost\<close> induces (a negative difference puts \<open>a\<close>
  first; \<^verbatim>\<open>Infinity - Infinity\<close> is NaN, which \<^verbatim>\<open>sort\<close> reads as "equal").
\<close>

instantiation jsnum :: linorder
begin

fun less_eq_jsnum :: "jsnum \<Rightarrow> jsnum \<Rightarrow> bool" where
  "less_eq_jsnum (Fin a) (Fin b) = (a \<le> b)"
| "less_eq_jsnum _ Infinity = True"
| "less_eq_jsnum Infinity (Fin b) = False"

fun less_jsnum :: "jsnum \<Rightarrow> jsnum \<Rightarrow> bool" where
  "less_jsnum (Fin a) (Fin b) = (a < b)"
| "less_jsnum (Fin a) Infinity = True"
| "less_jsnum Infinity _ = False"

instance
proof
  fix x y z :: jsnum
  show "(x < y) = (x \<le> y \<and> \<not> y \<le> x)"
    by (cases x; cases y) auto
  show "x \<le> x"
    by (cases x) auto
  show "x \<le> y \<Longrightarrow> y \<le> z \<Longrightarrow> x \<le> z"
    by (cases x; cases y; cases z) auto
  show "x \<le> y \<Longrightarrow> y \<le> x \<Longrightarrow> x = y"
    by (cases x; cases y) auto
  show "x \<le> y \<or> y \<le> x"
    by (cases x; cases y) auto
qed

end

section \<open>The grid\<close>

text \<open>
  A cell object of \<^verbatim>\<open>createInitialGrid\<close>. The grid \<^verbatim>\<open>grid[row][col]\<close> is an array of
  rows of cells. Every cell is created once, at its own position, with the fields
  \<^verbatim>\<open>row\<close> and \<^verbatim>\<open>col\<close> set to that position and never written again, so a reference
  to a cell object (\<^verbatim>\<open>startNode\<close>, \<^verbatim>\<open>previousNode\<close>, a member of the queue, of the
  open list or of the closed set) is modelled as the pair \<open>(row, col)\<close>: comparing
  two references with \<^verbatim>\<open>===\<close> is comparing the pairs, and \<^verbatim>\<open>node.row\<close>,
  \<^verbatim>\<open>node.col\<close> are the components of the reference. The record holds the other
  fields the searches read or write.
\<close>

type_synonym ref = "nat \<times> nat"

record node =
  isWall :: bool
  weight :: jsnum
  distance :: jsnum
  totalCost :: jsnum
  heuristic_field :: jsnum
  isVisited :: bool
  previousNode :: "ref option"

type_synonym grid = "node list list"

text \<open>
  The cell that \<^verbatim>\<open>createInitialGrid\<close> pushes for a terrain with the given wall flag
  and weight, which is also what \<^verbatim>\<open>makeClean\<close> resets a cell to before a search:
  \<^verbatim>\<open>distance: Infinity, isVisited: false, previousNode: null, totalCost: Infinity,
  heuristic: 0\<close>.
\<close>

definition createNode :: "bool \<Rightarrow> jsnum \<Rightarrow> node" where
  "createNode w x = \<lparr>isWall = w, weight = x, distance = Infinity, totalCost = Infinity,
     heuristic_field = Fin 0, isVisited = False, previousNode = None\<rparr>"

text \<open>\<^verbatim>\<open>grid[row][col]\<close>, read through a reference.\<close>

definition cell :: "grid \<Rightarrow> ref \<Rightarrow> node" where
  "cell g p = g ! fst p ! snd p"

text \<open>An assignment to fields of the cell object behind a reference.\<close>

definition update_cell :: "grid \<Rightarrow> ref \<Rightarrow> (node \<Rightarrow> node) \<Rightarrow> grid" where
  "update_cell g p f = g[fst p := (g ! fst p)[snd p := f (g ! fst p ! snd p)]]"

text \<open>
  A rectangular grid with at least one row, and the references to its cells. On such a
  grid every index that \<^verbatim>\<open>getNeighbors\<close> reads is in range.
\<close>

definition valid_grid :: "grid \<Rightarrow> bool" where
  "valid_grid g \<longleftrightarrow> g \<noteq> [] \<and> list_all (\<lambda>r. length r = length (g ! 0)) g"

definition in_grid :: "grid \<Rightarrow> ref \<Rightarrow> bool" where
  "in_grid g p \<longleftrightarrow> fst p < length g \<and> snd p < length (g ! 0)"

section \<open>Neighbour lookup\<close>

text \<open>
  \<^verbatim>\<open>getNeighbors(node, grid)\<close> of astar.js: up, down, left, right, each pushed when
  its bounds check passes. \<^verbatim>\<open>grid.length - 1\<close> is computed on numbers, hence on
  \<open>int\<close> here.
\<close>

definition getNeighbors :: "ref \<Rightarrow> grid \<Rightarrow> ref list" where
  "getNeighbors n g =
     (let row = fst n; col = snd n in
        (if row > 0 then [(row - 1, col)] else []) @
        (if int row < int (length g) - 1 then [(row + 1, col)] else []) @
        (if col > 0 then [(row, col - 1)] else []) @
        (if int col < int (length (g ! 0)) - 1 then [(row, col + 1)] else []))"

text \<open>
  \<^verbatim>\<open>getUnvisitedNeighbors(node, grid)\<close> of bfs.js: the same four pushes, then
  \<^verbatim>\<open>filter(n => !n.isVisited && !n.isWall)\<close>.
\<close>

definition getUnvisitedNeighbors :: "ref \<Rightarrow> grid \<Rightarrow> ref list" where
  "getUnvisitedNeighbors n g =
     (let row = fst n; col = snd n;
          neighbors =
            (if row > 0 then [(row - 1, col)] else []) @
            (if int row < int (length g) - 1 then [(row + 1, col)] else []) @
            (if col > 0 then [(row, col - 1)] else []) @
            (if int col < int (length (g ! 0)) - 1 then [(row, col + 1)] else [])
      in filter (\<lambda>n. \<not> isVisited (cell g n) \<and> \<not> isWall (cell g n)) neighbors)"

section \<open>Breadth-first search\<close>

text \<open>
  The local variables and the grid of one run of \<^verbatim>\<open>bfs\<close>: the grid (the cell
  objects it mutates), \<^verbatim>\<open>queue\<close> and \<^verbatim>\<open>visitedNodesInOrder\<close>.
\<close>

record bfs_state =
  b_grid :: grid
  b_queue :: "ref list"
  b_visited :: "ref list"

text \<open>
  How one iteration of a \<^verbatim>\<open>while\<close> body ends: it falls through or executes
  \<^verbatim>\<open>continue\<close>, or it executes \<^verbatim>\<open>return visitedNodesInOrder\<close>.
\<close>

datatype 'a flow = Continue 'a | Return 'a

text \<open>
  The body of \<^verbatim>\<open>for (const neighbor of neighbors)\<close>:
  \<^verbatim>\<open>neighbor.isVisited = true; neighbor.previousNode = current; queue.push(neighbor)\<close>.
\<close>

definition bfs_visit :: "ref \<Rightarrow> ref \<Rightarrow> bfs_state \<Rightarrow> bfs_state" where
  "bfs_visit current neighbor s =
     s\<lparr>b_grid := update_cell (b_grid s) neighbor
                  (\<lambda>n. n\<lparr>isVisited := True, previousNode := Some current\<rparr>),
       b_queue := b_queue s @ [neighbor]\<rparr>"

text \<open>The body of \<^verbatim>\<open>while (queue.length > 0)\<close>, entered with a non-empty queue.\<close>

definition bfs_body :: "ref \<Rightarrow> bfs_state \<Rightarrow> bfs_state flow" where
  "bfs_body endNode s =
     (let current = hd (b_queue s);
          s1 = s\<lparr>b_queue := tl (b_queue s)\<rparr>
      in if isWall (cell (b_grid s1) current) then Continue s1
         else let s2 = s1\<lparr>b_visited := b_visited s1 @ [current]\<rparr>
              in if current = endNode then Return s2
                 else let neighbors = getUnvisitedNeighbors current (b_grid s2)
                      in Continue (fold (bfs_visit current) neighbors s2))"

partial_function (option) bfs_while :: "ref \<Rightarrow> bfs_state \<Rightarrow> bfs_state option" where
  "bfs_while endNode s =
     (if b_queue s = [] then Some s
      else case bfs_body endNode s of
             Return s' \<Rightarrow> Some s'
           | Continue s' \<Rightarrow> bfs_while endNode s')"

declare bfs_while.simps [code]

text \<open>The state when the loop is first reached.\<close>

definition bfs_init :: "grid \<Rightarrow> ref \<Rightarrow> bfs_state" where
  "bfs_init g startNode =
     \<lparr>b_grid = update_cell g startNode (\<lambda>n. n\<lparr>isVisited := True\<rparr>),
      b_queue = [startNode], b_visited = []\<rparr>"

text \<open>
  \<^verbatim>\<open>bfs(grid, startNode, endNode)\<close>: the returned \<^verbatim>\<open>visitedNodesInOrder\<close>, and the
  grid as the run leaves it. \<open>None\<close> stands for a run that does not return.
\<close>

definition bfs :: "grid \<Rightarrow> ref \<Rightarrow> ref \<Rightarrow> (ref list \<times> grid) option" where
  "bfs g startNode endNode =
     map_option (\<lambda>s. (b_visited s, b_grid s)) (bfs_while endNode (bfs_init g startNode))"

section \<open>Path reconstruction\<close>

text \<open>
  \<^verbatim>\<open>getNodesInShortestPathOrder(endNode)\<close>: the loop
  \<^verbatim>\<open>while (current !== null && current !== undefined)\<close> with \<^verbatim>\<open>path.unshift(current)\<close>
  and \<^verbatim>\<open>current = current.previousNode\<close>. The cell objects it reads are those of the
  grid.
\<close>

partial_function (option) path_while :: "grid \<Rightarrow> ref option \<Rightarrow> ref list \<Rightarrow> ref list option" where
  "path_while g current path =
     (case current of
        None \<Rightarrow> Some path
      | Some c \<Rightarrow> path_while g (previousNode (cell g c)) (c # path))"

declare path_while.simps [code]

definition getNodesInShortestPathOrder :: "grid \<Rightarrow> ref \<Rightarrow> ref list option" where
  "getNodesInShortestPathOrder g endNode = path_while g (Some endNode) []"

section \<open>A* search\<close>

text \<open>
  In this section the two sums of the loop are sums without rounding (\<open>js_add\<close>);
  section "A* search with the addition of doubles" has the same loop with the sums of
  doubles.
\<close>

text \<open>\<^verbatim>\<open>heuristic(nodeA, nodeB)\<close>: the Manhattan distance.\<close>

definition heuristic :: "ref \<Rightarrow> ref \<Rightarrow> jsnum" where
  "heuristic nodeA nodeB =
     Fin (of_int (\<bar>int (fst nodeA) - int (fst nodeB)\<bar> + \<bar>int (snd nodeA) - int (snd nodeB)\<bar>))"

text \<open>\<^verbatim>\<open>neighbor.weight || 1\<close>: of the numbers of the model, only 0 is falsy.\<close>

definition weight_or_1 :: "jsnum \<Rightarrow> jsnum" where
  "weight_or_1 w = (if w = Fin 0 then Fin 1 else w)"

text \<open>
  The local variables and the grid of one run of \<^verbatim>\<open>astar\<close>: the grid,
  \<^verbatim>\<open>openList\<close>, \<^verbatim>\<open>closedSet\<close> and \<^verbatim>\<open>visitedNodesInOrder\<close>.
\<close>

record astar_state =
  a_grid :: grid
  a_openList :: "ref list"
  a_closedSet :: "ref set"
  a_visited :: "ref list"

text \<open>The body of \<^verbatim>\<open>for (const neighbor of neighbors)\<close>.\<close>

definition astar_relax :: "ref \<Rightarrow> ref \<Rightarrow> ref \<Rightarrow> astar_state \<Rightarrow> astar_state" where
  "astar_relax endNode current neighbor s =
     (if neighbor \<in> a_closedSet s \<or> isWall (cell (a_grid s) neighbor) then s
      else let tentativeG = js_add (distance (cell (a_grid s) current))
                                   (weight_or_1 (weight (cell (a_grid s) neighbor)))
           in if tentativeG < distance (cell (a_grid s) neighbor)
              then let s1 = s\<lparr>a_grid := update_cell (a_grid s) neighbor
                                 (\<lambda>n. n\<lparr>distance := tentativeG,
                                         heuristic_field := heuristic neighbor endNode,
                                         totalCost := js_add tentativeG (heuristic neighbor endNode),
                                         previousNode := Some current\<rparr>)\<rparr>
                   in if neighbor \<in> set (a_openList s1) then s1
                      else s1\<lparr>a_openList := a_openList s1 @ [neighbor]\<rparr>
              else s)"

text \<open>
  The body of \<^verbatim>\<open>while (openList.length > 0)\<close>, entered with a non-empty open list.
  \<^verbatim>\<open>Array.prototype.sort\<close> is stable, as \<open>sort_key\<close> is.
\<close>

definition astar_body :: "ref \<Rightarrow> astar_state \<Rightarrow> astar_state flow" where
  "astar_body endNode s =
     (let sorted = sort_key (\<lambda>n. totalCost (cell (a_grid s) n)) (a_openList s);
          current = hd sorted;
          s1 = s\<lparr>a_openList := tl sorted\<rparr>
      in if isWall (cell (a_grid s1) current) then Continue s1
         else if current \<in> a_closedSet s1 then Continue s1
         else if distance (cell (a_grid s1) current) = Infinity then Return s1
         else let s2 = s1\<lparr>a_closedSet := insert current (a_closedSet s1),
                          a_grid := update_cell (a_grid s1) current (\<lambda>n. n\<lparr>isVisited := True\<rparr>),
                          a_visited := a_visited s1 @ [current]\<rparr>
              in if current = endNode then Return s2
                 else Continue (fold (astar_relax endNode current)
                                  (getNeighbors current (a_grid s2)) s2))"

partial_function (option) astar_while :: "ref \<Rightarrow> astar_state \<Rightarrow> astar_state option" where
  "astar_while endNode s =
     (if a_openList s = [] then Some s
      else case astar_body endNode s of
             Return s' \<Rightarrow> Some s'
           | Continue s' \<Rightarrow> astar_while endNode s')"

declare astar_while.simps [code]

text \<open>The state when the loop is first reached.\<close>

definition astar_init :: "grid \<Rightarrow> ref \<Rightarrow> ref \<Rightarrow> astar_state" where
  "astar_init g startNode endNode =
     \<lparr>a_grid = update_cell g startNode
                 (\<lambda>n. n\<lparr>distance := Fin 0, totalCost := heuristic startNode endNode\<rparr>),
      a_openList = [startNode], a_closedSet = {}, a_visited = []\<rparr>"

text \<open>
  \<^verbatim>\<open>astar(grid, startNode, endNode)\<close>: the returned \<^verbatim>\<open>visitedNodesInOrder\<close>, and the
  grid as the run leaves it.
\<close>

definition astar :: "grid \<Rightarrow> ref \<Rightarrow> ref \<Rightarrow> (ref list \<times> grid) option" where
  "astar g startNode endNode =
     map_option (\<lambda>s. (a_visited s, a_grid s)) (astar_while endNode (astar_init g startNode endNode))"

section \<open>Addition of doubles\<close>

text \<open>
  \<^verbatim>\<open>a + b\<close> on doubles (IEEE 754 binary64): the exact sum, rounded to the nearest
  double, ties to the double with an even significand; a sum that rounds to
  \<open>2\<^sup>1\<^sup>0\<^sup>2\<^sup>4\<close> or more is \<^verbatim>\<open>Infinity\<close>. The operands are taken to be doubles
  themselves. The searches add distances, weights and Manhattan distances, which are not
  negative when the weights are not; a sum of \<open>-2\<^sup>1\<^sup>0\<^sup>2\<^sup>4\<close> or less, where the
  double is negative infinity, is outside the model.
\<close>

text \<open>
  The exponent of the binade of a positive number \<open>x\<close>: the integer \<open>e\<close> with
  \<open>2\<^sup>e \<le> x < 2\<^sup>e\<^sup>+\<^sup>1\<close>, and \<open>-1022\<close> for the subnormal numbers below.
\<close>

definition double_exponent :: "rat \<Rightarrow> int" where
  "double_exponent x =
     max (- 1022) (if 1 \<le> x then bitlen \<lfloor>x\<rfloor> - 1 else - bitlen (\<lceil>1 / x\<rceil> - 1))"

text \<open>The distance between neighbouring doubles of that binade (52 fraction bits).\<close>

definition double_quantum :: "rat \<Rightarrow> rat" where
  "double_quantum x =
     (let k = double_exponent x - 52 in if 0 \<le> k then 2 ^ nat k else 1 / 2 ^ nat (- k))"

text \<open>The nearest integer, ties to the even one.\<close>

definition round_half_even :: "rat \<Rightarrow> int" where
  "round_half_even y =
     (let f = \<lfloor>y\<rfloor>; d = y - of_int f
      in if d < 1 / 2 then f else if 1 / 2 < d then f + 1 else if even f then f else f + 1)"

definition round_double :: "rat \<Rightarrow> jsnum" where
  "round_double x =
     (if x = 0 then Fin 0
      else let q = double_quantum \<bar>x\<bar>;
               r = of_int (round_half_even (x / q)) * q
           in if 2 ^ 1024 \<le> \<bar>r\<bar> then Infinity else Fin r)"

fun double_add :: "jsnum \<Rightarrow> jsnum \<Rightarrow> jsnum" where
  "double_add (Fin a) (Fin b) = round_double (a + b)"
| "double_add _ _ = Infinity"

section \<open>A* search with the addition of doubles\<close>

text \<open>
  The loop of \<^verbatim>\<open>astar\<close> once more, with the addition a parameter: \<open>add\<close> is used
  for \<^verbatim>\<open>current.distance + (neighbor.weight || 1)\<close> and for
  \<^verbatim>\<open>neighbor.distance + neighbor.heuristic\<close>. With \<open>double_add\<close> for \<open>add\<close> the
  definitions are the run of the code; with \<open>js_add\<close> they are the definitions of
  section "A* search".
\<close>

definition astar_relax_with ::
  "(jsnum \<Rightarrow> jsnum \<Rightarrow> jsnum) \<Rightarrow> ref \<Rightarrow> ref \<Rightarrow> ref \<Rightarrow> astar_state \<Rightarrow> astar_state" where
  "astar_relax_with add endNode current neighbor s =
     (if neighbor \<in> a_closedSet s \<or> isWall (cell (a_grid s) neighbor) then s
      else let tentativeG = add (distance (cell (a_grid s) current))
                                (weight_or_1 (weight (cell (a_grid s) neighbor)))
           in if tentativeG < distance (cell (a_grid s) neighbor)
              then let s1 = s\<lparr>a_grid := update_cell (a_grid s) neighbor
                                 (\<lambda>n. n\<lparr>distance := tentativeG,
                                         heuristic_field := heuristic neighbor endNode,
                                         totalCost := add tentativeG (heuristic neighbor endNode),
                                         previousNode := Some current\<rparr>)\<rparr>
                   in if neighbor \<in> set (a_openList s1) then s1
                      else s1\<lparr>a_openList := a_openList s1 @ [neighbor]\<rparr>
              else s)"

definition astar_body_with ::
  "(jsnum \<Rightarrow> jsnum \<Rightarrow> jsnum) \<Rightarrow> ref \<Rightarrow> astar_state \<Rightarrow> astar_state flow" where
  "astar_body_with add endNode s =
     (let sorted = sort_key (\<lambda>n. totalCost (cell (a_grid s) n)) (a_openList s);
          current = hd sorted;
          s1 = s\<lparr>a_openList := tl sorted\<rparr>
      in if isWall (cell (a_grid s1) current) then Continue s1
         else if current \<in> a_closedSet s1 then Continue s1
         else if distance (cell (a_grid s1) current) = Infinity then Return s1
         else let s2 = s1\<lparr>a_closedSet := insert current (a_closedSet s1),
                          a_grid := update_cell (a_grid s1) current (\<lambda>n. n\<lparr>isVisited := True\<rparr>),
                          a_visited := a_visited s1 @ [current]\<rparr>
              in if current = endNode then Return s2
                 else Continue (fold (astar_relax_with add endNode current)
                                  (getNeighbors current (a_grid s2)) s2))"

partial_function (option) astar_while_with ::
  "(jsnum \<Rightarrow> jsnum \<Rightarrow> jsnum) \<Rightarrow> ref \<Rightarrow> astar_state \<Rightarrow> astar_state option" where
  "astar_while_with add endNode s =
     (if a_openList s = [] then Some s
      else case astar_body_with add endNode s of
             Return s' \<Rightarrow> Some s'
           | Continue s' \<Rightarrow> astar_while_with add endNode s')"

declare astar_while_with.simps [code]

text \<open>
  \<^verbatim>\<open>astar(grid, startNode, endNode)\<close> with the additions of doubles: the returned
  \<^verbatim>\<open>visitedNodesInOrder\<close>, and the grid as the run leaves it.
\<close>

definition astar_double :: "grid \<Rightarrow> ref \<Rightarrow> ref \<Rightarrow> (ref list \<times> grid) option" where
  "astar_double g startNode endNode =
     map_option (\<lambda>s. (a_visited s, a_grid s))
       (astar_while_with double_add endNode (astar_init g startNode endNode))"

text \<open>The states that the loop reaches from \<open>s\<close>, each at the start of an iteration.\<close>

inductive astar_reaches_with ::
  "(jsnum \<Rightarrow> jsnum \<Rightarrow> jsnum) \<Rightarrow> ref \<Rightarrow> astar_state \<Rightarrow> astar_state \<Rightarrow> bool"
  for add :: "jsnum \<Rightarrow> jsnum \<Rightarrow> jsnum" and e :: ref and s :: astar_state where
  reaches_with_start: "astar_reaches_with add e s s"
| reaches_with_step: "astar_reaches_with add e s t \<Longrightarrow> a_openList t \<noteq> [] \<Longrightarrow>
     astar_body_with add e t = Continue u \<Longrightarrow> astar_reaches_with add e s u"

section \<open>Auxiliary notions for the proofs\<close>

text \<open>
  The searches never write \<^verbatim>\<open>isWall\<close> or \<^verbatim>\<open>weight\<close>, and never change the shape
  of the grid: \<open>same_static g0 g\<close> relates the grid \<open>g\<close> during a run to the grid
  \<open>g0\<close> the run started from.
\<close>

definition same_static :: "grid \<Rightarrow> grid \<Rightarrow> bool" where
  "same_static g0 g \<longleftrightarrow>
     valid_grid g \<and> length g = length g0 \<and> length (g ! 0) = length (g0 ! 0) \<and>
     (\<forall>p. in_grid g0 p \<longrightarrow> isWall (cell g p) = isWall (cell g0 p) \<and>
                             weight (cell g p) = weight (cell g0 p))"

definition tentative :: "grid \<Rightarrow> ref \<Rightarrow> ref \<Rightarrow> jsnum" where
  "tentative g current neighbor =
     js_add (distance (cell g current)) (weight_or_1 (weight (cell g neighbor)))"

definition improves :: "grid \<Rightarrow> ref set \<Rightarrow> ref \<Rightarrow> ref \<Rightarrow> bool" where
  "improves g cl current neighbor \<longleftrightarrow>
     neighbor \<notin> cl \<and> \<not> isWall (cell g neighbor) \<and>
     tentative g current neighbor < distance (cell g neighbor)"

definition relaxed :: "grid \<Rightarrow> ref \<Rightarrow> ref \<Rightarrow> ref \<Rightarrow> node" where
  "relaxed g endNode current neighbor =
     (cell g neighbor)\<lparr>distance := tentative g current neighbor,
        heuristic_field := heuristic neighbor endNode,
        totalCost := js_add (tentative g current neighbor) (heuristic neighbor endNode),
        previousNode := Some current\<rparr>"

definition astar_current :: "astar_state \<Rightarrow> ref" where
  "astar_current s = hd (sort_key (\<lambda>n. totalCost (cell (a_grid s) n)) (a_openList s))"

definition astar_popped :: "astar_state \<Rightarrow> astar_state" where
  "astar_popped s = s\<lparr>a_openList := tl (sort_key (\<lambda>n. totalCost (cell (a_grid s) n)) (a_openList s))\<rparr>"

definition astar_closed :: "astar_state \<Rightarrow> astar_state" where
  "astar_closed s =
     (astar_popped s)\<lparr>a_closedSet := insert (astar_current s) (a_closedSet s),
        a_grid := update_cell (a_grid s) (astar_current s) (\<lambda>n. n\<lparr>isVisited := True\<rparr>),
        a_visited := a_visited s @ [astar_current s]\<rparr>"

definition astar_expanded :: "ref \<Rightarrow> astar_state \<Rightarrow> astar_state" where
  "astar_expanded e s =
     fold (astar_relax e (astar_current s)) (getNeighbors (astar_current s) (a_grid s)) (astar_closed s)"

definition astar_inv0 :: "grid \<Rightarrow> ref \<Rightarrow> astar_state \<Rightarrow> bool" where
  "astar_inv0 g0 e s \<longleftrightarrow>
     same_static g0 (a_grid s)
     \<and> (\<forall>p \<in> set (a_openList s). in_grid g0 p)
     \<and> distinct (a_openList s)
     \<and> set (a_openList s) \<inter> a_closedSet s = {}
     \<and> a_closedSet s = set (a_visited s)
     \<and> distinct (a_visited s)
     \<and> (\<forall>p \<in> a_closedSet s. in_grid g0 p \<and> \<not> isWall (cell g0 p))
     \<and> (\<forall>p \<in> set (a_openList s) \<union> a_closedSet s.
           \<exists>d. distance (cell (a_grid s) p) = Fin d \<and>
               totalCost (cell (a_grid s) p) = js_add (Fin d) (heuristic p e))"

definition astar_rel :: "grid \<Rightarrow> (astar_state \<times> astar_state) set" where
  "astar_rel g0 =
     inv_image (less_than <*lex*> less_than)
       (\<lambda>s. (card ({p. in_grid g0 p} - a_closedSet s), length (a_openList s)))"

inductive astar_reaches :: "ref \<Rightarrow> astar_state \<Rightarrow> astar_state \<Rightarrow> bool"
  for e :: ref and s :: astar_state where
  reaches_start: "astar_reaches e s s"
| reaches_step: "astar_reaches e s t \<Longrightarrow> a_openList t \<noteq> [] \<Longrightarrow>
     astar_body e t = Continue u \<Longrightarrow> astar_reaches e s u"

text \<open>
  Paths, as the claims speak of them. Two positions are adjacent when they differ by one
  step up, down, left or right; a path is a non-empty sequence of cells of the grid, none
  a wall, each adjacent to the next; its cost is the sum of the weights of the cells
  entered (all but the first), and its number of edges is its length minus one.
\<close>

definition adjacent :: "ref \<Rightarrow> ref \<Rightarrow> bool" where
  "adjacent p q \<longleftrightarrow>
     (fst p = fst q \<and> (snd p = Suc (snd q) \<or> snd q = Suc (snd p))) \<or>
     (snd p = snd q \<and> (fst p = Suc (fst q) \<or> fst q = Suc (fst p)))"

definition passable :: "grid \<Rightarrow> ref \<Rightarrow> bool" where
  "passable g p \<longleftrightarrow> in_grid g p \<and> \<not> isWall (cell g p)"

fun is_path :: "grid \<Rightarrow> ref list \<Rightarrow> bool" where
  "is_path g [] = False"
| "is_path g [p] = passable g p"
| "is_path g (p # q # ps) = (passable g p \<and> adjacent p q \<and> is_path g (q # ps))"

definition path_between :: "grid \<Rightarrow> ref \<Rightarrow> ref \<Rightarrow> ref list \<Rightarrow> bool" where
  "path_between g a b ps \<longleftrightarrow> is_path g ps \<and> hd ps = a \<and> last ps = b"

definition path_cost :: "grid \<Rightarrow> ref list \<Rightarrow> jsnum" where
  "path_cost g ps = foldr (\<lambda>p. js_add (weight (cell g p))) (tl ps) (Fin 0)"

text \<open>A property of every cell object of the grid (as \<^verbatim>\<open>makeClean\<close> establishes one).\<close>

definition all_cells :: "(node \<Rightarrow> bool) \<Rightarrow> grid \<Rightarrow> bool" where
  "all_cells P g \<longleftrightarrow> (\<forall>r \<in> set g. \<forall>n \<in> set r. P n)"

text \<open>\<open>before xs a b\<close>: \<open>a\<close> occurs in \<open>xs\<close> at an earlier position than \<open>b\<close>.\<close>

definition before :: "'a list \<Rightarrow> 'a \<Rightarrow> 'a \<Rightarrow> bool" where
  "before xs a b \<longleftrightarrow> (\<exists>i j. i < j \<and> j < length xs \<and> xs ! i = a \<and> xs ! j = b)"

text \<open>
  The predecessor links during a run of \<^verbatim>\<open>astar\<close> that started with every
  \<^verbatim>\<open>previousNode\<close> null and a start that is no wall.
\<close>

definition astar_invP :: "grid \<Rightarrow> ref \<Rightarrow> astar_state \<Rightarrow> bool" where
  "astar_invP g0 start s \<longleftrightarrow>
     (a_openList s = [start] \<and> a_closedSet s = {} \<or> start \<in> a_closedSet s)
     \<and> previousNode (cell (a_grid s) start) = None
     \<and> distance (cell (a_grid s) start) = Fin 0
     \<and> (\<forall>p \<in> set (a_openList s). \<not> isWall (cell g0 p))
     \<and> (\<forall>p. in_grid g0 p \<and> p \<notin> set (a_openList s) \<union> a_closedSet s \<longrightarrow>
            previousNode (cell (a_grid s) p) = None)
     \<and> (\<forall>p \<in> set (a_openList s) \<union> a_closedSet s. p \<noteq> start \<longrightarrow>
           (\<exists>q. previousNode (cell (a_grid s) p) = Some q \<and> q \<in> a_closedSet s \<and> adjacent q p
              \<and> distance (cell (a_grid s) p) =
                    js_add (distance (cell (a_grid s) q)) (weight_or_1 (weight (cell g0 p)))
              \<and> (p \<in> a_closedSet s \<longrightarrow> before (a_visited s) q p)))"

text \<open>
  The weights the data model allows on cells that are no walls: a finite number, at
  least 1.
\<close>

definition weights_ok :: "grid \<Rightarrow> bool" where
  "weights_ok g \<longleftrightarrow> all_cells (\<lambda>n. \<not> isWall n \<longrightarrow> Fin 1 \<le> weight n \<and> weight n \<noteq> Infinity) g"

text \<open>The Manhattan distance as a rational.\<close>

definition hdist :: "ref \<Rightarrow> ref \<Rightarrow> rat" where
  "hdist a b = of_int (\<bar>int (fst a) - int (fst b)\<bar> + \<bar>int (snd a) - int (snd b)\<bar>)"

text \<open>
  The costs during a run of \<^verbatim>\<open>astar\<close> that started with every \<^verbatim>\<open>distance\<close>
  \<^verbatim>\<open>Infinity\<close>, on a grid with the weights of the data model.
\<close>

definition astar_invO :: "grid \<Rightarrow> ref \<Rightarrow> astar_state \<Rightarrow> bool" where
  "astar_invO g0 e s \<longleftrightarrow>
     (\<forall>p. passable g0 p \<and> p \<notin> set (a_openList s) \<union> a_closedSet s \<longrightarrow>
          distance (cell (a_grid s) p) = Infinity)
     \<and> (\<forall>q \<in> a_closedSet s. \<forall>p. adjacent q p \<and> passable g0 p \<longrightarrow>
          p \<in> set (a_openList s) \<union> a_closedSet s \<and>
          distance (cell (a_grid s) p) \<le> js_add (distance (cell (a_grid s) q)) (weight (cell g0 p)))
     \<and> (\<forall>q \<in> a_closedSet s. \<forall>p \<in> set (a_openList s).
          totalCost (cell (a_grid s) q) \<le> totalCost (cell (a_grid s) p))
     \<and> sorted (map (\<lambda>p. totalCost (cell (a_grid s) p)) (a_visited s))
     \<and> e \<notin> a_closedSet s"

text \<open>
  The iteration of the loop of \<^verbatim>\<open>astar\<close> that starts in state \<open>s\<close> selects a node: the
  node it takes from the open list passes the three checks and is appended to
  \<^verbatim>\<open>visitedNodesInOrder\<close>.
\<close>

definition astar_selects :: "astar_state \<Rightarrow> bool" where
  "astar_selects s \<longleftrightarrow>
     a_openList s \<noteq> [] \<and> \<not> isWall (cell (a_grid s) (astar_current s)) \<and>
     astar_current s \<notin> a_closedSet s \<and> distance (cell (a_grid s) (astar_current s)) \<noteq> Infinity"

text \<open>
  One iteration of the loop of \<^verbatim>\<open>bfs\<close>, taken apart: the node it dequeues, the
  neighbours it enqueues, and the state after the \<^verbatim>\<open>for\<close> loop.
\<close>

definition bfs_current :: "bfs_state \<Rightarrow> ref" where
  "bfs_current s = hd (b_queue s)"

definition bfs_new :: "bfs_state \<Rightarrow> ref list" where
  "bfs_new s = getUnvisitedNeighbors (bfs_current s) (b_grid s)"

definition bfs_dequeued :: "bfs_state \<Rightarrow> bfs_state" where
  "bfs_dequeued s = s\<lparr>b_queue := tl (b_queue s), b_visited := b_visited s @ [bfs_current s]\<rparr>"

definition bfs_expanded :: "bfs_state \<Rightarrow> bfs_state" where
  "bfs_expanded s = fold (bfs_visit (bfs_current s)) (bfs_new s) (bfs_dequeued s)"

definition bfs_inv0 :: "grid \<Rightarrow> bfs_state \<Rightarrow> bool" where
  "bfs_inv0 g0 s \<longleftrightarrow>
     same_static g0 (b_grid s)
     \<and> (\<forall>p \<in> set (b_queue s). in_grid g0 p)
     \<and> (\<forall>p \<in> set (b_visited s). in_grid g0 p \<and> \<not> isWall (cell g0 p))
     \<and> distinct (b_visited s @ b_queue s)
     \<and> (\<forall>p \<in> set (b_queue s) \<union> set (b_visited s). isVisited (cell (b_grid s) p))"

definition bfs_invN :: "grid \<Rightarrow> ref \<Rightarrow> bfs_state \<Rightarrow> bool" where
  "bfs_invN g0 start s \<longleftrightarrow>
     previousNode (cell (b_grid s) start) = None
     \<and> (\<forall>p. in_grid g0 p \<and> p \<notin> set (b_queue s) \<union> set (b_visited s) \<longrightarrow>
            previousNode (cell (b_grid s) p) = None)"

definition bfs_rel :: "grid \<Rightarrow> (bfs_state \<times> bfs_state) set" where
  "bfs_rel g0 =
     inv_image (less_than <*lex*> less_than)
       (\<lambda>s. (card {p. in_grid g0 p \<and> \<not> isVisited (cell (b_grid s) p)}, length (b_queue s)))"

text \<open>
  The predecessor links during a run of \<^verbatim>\<open>bfs\<close> from a start that is no wall
  (\<open>bfs_invP\<close>), and what is known in addition when the run started with every
  \<^verbatim>\<open>previousNode\<close> null (\<open>bfs_invN\<close>).
\<close>

definition bfs_invP :: "grid \<Rightarrow> ref \<Rightarrow> bfs_state \<Rightarrow> bool" where
  "bfs_invP g0 start s \<longleftrightarrow>
     start \<in> set (b_visited s @ b_queue s)
     \<and> (\<forall>p \<in> set (b_queue s). \<not> isWall (cell g0 p))
     \<and> (\<forall>p \<in> set (b_queue s) \<union> set (b_visited s). p \<noteq> start \<longrightarrow>
           (\<exists>q. previousNode (cell (b_grid s) p) = Some q \<and> q \<in> set (b_visited s) \<and> adjacent q p
              \<and> (p \<in> set (b_visited s) \<longrightarrow> before (b_visited s) q p)))"

text \<open>
  The levels during a run of \<^verbatim>\<open>bfs\<close> that started with every \<^verbatim>\<open>isVisited\<close> false:
  \<open>lev\<close> assigns to every cell that was enqueued the number of predecessor links that
  lead from it back to start. \<^verbatim>\<open>bfs\<close> stores no such number; it is a quantity of the
  proof.
\<close>

definition bfs_invL :: "grid \<Rightarrow> ref \<Rightarrow> bfs_state \<Rightarrow> (ref \<Rightarrow> nat) \<Rightarrow> bool" where
  "bfs_invL g0 start s lev \<longleftrightarrow>
     lev start = 0
     \<and> (\<forall>p \<in> set (b_queue s) \<union> set (b_visited s). p \<noteq> start \<longrightarrow>
           (\<exists>q. previousNode (cell (b_grid s) p) = Some q \<and> lev p = Suc (lev q)))
     \<and> sorted (map lev (b_visited s @ b_queue s))
     \<and> (\<forall>p \<in> set (b_queue s). \<forall>q \<in> set (b_queue s). lev p \<le> Suc (lev q))
     \<and> (\<forall>q \<in> set (b_visited s). \<forall>p. adjacent q p \<and> passable g0 p \<longrightarrow>
           p \<in> set (b_queue s) \<union> set (b_visited s) \<and> lev p \<le> Suc (lev q))"

definition bfs_invO :: "grid \<Rightarrow> ref \<Rightarrow> ref \<Rightarrow> bfs_state \<Rightarrow> bool" where
  "bfs_invO g0 start e s \<longleftrightarrow>
     (\<forall>p. passable g0 p \<and> p \<notin> set (b_queue s) \<union> set (b_visited s) \<longrightarrow>
          \<not> isVisited (cell (b_grid s) p))
     \<and> e \<notin> set (b_visited s)
     \<and> (\<exists>lev. bfs_invL g0 start s lev)"

text \<open>
  What the levels are at the end of a run: for every cell in the visitation order, one
  more than the level of its predecessor, non-decreasing along the visitation order,
  and at most the number of edges of any path from start to the cell.
\<close>

definition bfs_levels :: "grid \<Rightarrow> ref \<Rightarrow> bfs_state \<Rightarrow> (ref \<Rightarrow> nat) \<Rightarrow> bool" where
  "bfs_levels g0 start s lev \<longleftrightarrow>
     lev start = 0
     \<and> (\<forall>p \<in> set (b_visited s). p \<noteq> start \<longrightarrow>
           (\<exists>q. previousNode (cell (b_grid s) p) = Some q \<and> lev p = Suc (lev q)))
     \<and> sorted (map lev (b_visited s))
     \<and> (\<forall>p \<in> set (b_visited s). \<forall>P. path_between g0 start p P \<longrightarrow> Suc (lev p) \<le> length P)"

text \<open>Multiples of 0.5.\<close>

definition half_int :: "rat \<Rightarrow> bool" where
  "half_int d \<longleftrightarrow> of_int \<lfloor>2 * d\<rfloor> = 2 * d"

text \<open>
  Weights with which no sum of the run is rounded: every cell that is no wall has a
  weight that is a multiple of 0.5, at least 1 and at most \<open>W\<close>.
\<close>

definition half_weights :: "nat \<Rightarrow> grid \<Rightarrow> bool" where
  "half_weights W g \<longleftrightarrow>
     all_cells (\<lambda>n. \<not> isWall n \<longrightarrow>
       (case weight n of Fin w \<Rightarrow> 1 \<le> w \<and> w \<le> of_nat W \<and> half_int w | Infinity \<Rightarrow> False)) g"

text \<open>
  The \<^verbatim>\<open>distance\<close> of every node of the open list and the closed set is a multiple
  of 0.5 between 0 and \<open>W\<close> times the number of closed nodes.
\<close>

definition astar_invB :: "nat \<Rightarrow> astar_state \<Rightarrow> bool" where
  "astar_invB W s \<longleftrightarrow>
     (\<forall>p \<in> set (a_openList s) \<union> a_closedSet s.
        \<exists>d. distance (cell (a_grid s) p) = Fin d \<and> 0 \<le> d \<and> half_int d
           \<and> d \<le> of_nat (W * card (a_closedSet s)))"

text \<open>
  A row of three cells whose middle cell still carries \<^verbatim>\<open>isVisited = true\<close> from an
  earlier run and whose right cell is a building.
\<close>

definition stale_visited_grid :: grid where
  "stale_visited_grid =
     [[createNode False (Fin 1), (createNode False (Fin 1))\<lparr>isVisited := True\<rparr>,
       createNode True Infinity]]"

text \<open>
  The same plan with every cell that is no wall a main road (weight 1).
\<close>

definition unit_grid :: grid where
  "unit_grid =
     [[createNode False (Fin 1), createNode False (Fin 1), createNode False (Fin 1)],
      [createNode False (Fin 1), createNode True Infinity, createNode False (Fin 1)]]"


text \<open>The largest power of two among the doubles.\<close>

definition huge :: rat where
  "huge = 2 ^ 1023"

text \<open>A row of three roads, the second and the third of weight \<open>2\<^sup>1\<^sup>0\<^sup>2\<^sup>3\<close>.\<close>

definition overflow_row :: grid where
  "overflow_row =
     [[createNode False (Fin 1), createNode False (Fin huge), createNode False (Fin huge)]]"

text \<open>
  A row of nine roads, the second of weight 1.22 (the double that the literal denotes),
  the others of weight 1.
\<close>

definition rounding_row :: grid where
  "rounding_row =
     [[createNode False (Fin 1), createNode False (round_double (61 / 50)),
       createNode False (Fin 1), createNode False (Fin 1), createNode False (Fin 1),
       createNode False (Fin 1), createNode False (Fin 1), createNode False (Fin 1),
       createNode False (Fin 1)]]"

text \<open>
  A small grid for concrete runs: 2 rows, 3 columns, freshly created cells, the middle cell
  of the lower row a building, the middle cell of the upper row an alley of weight 2.5.
\<close>

definition example_grid :: grid where
  "example_grid =
     [[createNode False (Fin 1), createNode False (Fin (5 / 2)), createNode False (Fin 1)],
      [createNode False (Fin 1), createNode True Infinity, createNode False (Fin 1)]]"

section \<open>Reading and writing cells\<close>

lemma length_update_cell [simp]: "length (update_cell g p f) = length g"
  by (simp add: update_cell_def)

lemma length_row0_update_cell [simp]: "length (update_cell g p f ! 0) = length (g ! 0)"
proof (cases "g = []")
  case True
  then show ?thesis by (simp add: update_cell_def)
next
  case False
  then have "0 < length g" by simp
  then show ?thesis
    by (cases "fst p = 0") (simp_all add: update_cell_def nth_list_update)
qed

lemma in_grid_update_cell [simp]: "in_grid (update_cell g p f) q = in_grid g q"
  by (simp add: in_grid_def)

lemma list_all_length_update_row:
  "list_all (\<lambda>r. length r = n) (g[i := (g ! i)[j := x]]) = list_all (\<lambda>r. length r = n) g"
  by (cases "i < length g") (auto simp: list_all_length nth_list_update)

lemma valid_grid_update_cell [simp]: "valid_grid (update_cell g p f) = valid_grid g"
proof -
  have "(update_cell g p f = []) = (g = [])"
    by (simp add: update_cell_def)
  moreover have "list_all (\<lambda>r. length r = length (g ! 0)) (update_cell g p f)
      = list_all (\<lambda>r. length r = length (g ! 0)) g"
    unfolding update_cell_def by (rule list_all_length_update_row)
  ultimately show ?thesis
    unfolding valid_grid_def by (simp only: length_row0_update_cell)
qed

lemma getNeighbors_update_cell [simp]:
  "getNeighbors n (update_cell g p f) = getNeighbors n g"
  by (simp add: getNeighbors_def)

lemma valid_grid_row_length:
  assumes "valid_grid g" and "in_grid g p"
  shows "snd p < length (g ! fst p)"
proof -
  from assms(1) have "\<forall>n<length g. length (g ! n) = length (g ! 0)"
    unfolding valid_grid_def list_all_length by blast
  with assms(2) show ?thesis
    unfolding in_grid_def by metis
qed

lemma cell_update_cell:
  assumes "valid_grid g" and "in_grid g p"
  shows "cell (update_cell g p f) q = (if q = p then f (cell g p) else cell g q)"
proof -
  have r: "fst p < length g" and c: "snd p < length (g ! fst p)"
    using assms valid_grid_row_length by (auto simp: in_grid_def)
  show ?thesis
  proof (cases "q = p")
    case True
    with r c show ?thesis by (simp add: cell_def update_cell_def)
  next
    case False
    then have "fst q \<noteq> fst p \<or> snd q \<noteq> snd p" by (auto simp: prod_eq_iff)
    with r c False show ?thesis
      by (auto simp: cell_def update_cell_def nth_list_update)
  qed
qed

lemma finite_in_grid: "finite {p. in_grid g p}"
proof -
  have "{p. in_grid g p} \<subseteq> {..<length g} \<times> {..<length (g ! 0)}"
    by (auto simp: in_grid_def)
  then show ?thesis by (rule finite_subset) simp
qed

section \<open>Neighbour lookup: properties\<close>

lemma getUnvisitedNeighbors_filter:
  "getUnvisitedNeighbors n g =
     filter (\<lambda>n. \<not> isVisited (cell g n) \<and> \<not> isWall (cell g n)) (getNeighbors n g)"
  by (simp add: getUnvisitedNeighbors_def getNeighbors_def Let_def)

lemma getNeighbors_in_grid:
  "in_grid g n \<Longrightarrow> q \<in> set (getNeighbors n g) \<Longrightarrow> in_grid g q"
  by (auto simp: getNeighbors_def in_grid_def Let_def split: if_splits)

lemma getNeighbors_distinct: "distinct (getNeighbors n g)"
  by (auto simp: getNeighbors_def Let_def)

text \<open>
  C8. On a rectangular grid with at least 2 rows and 2 columns, the neighbour lookup of
  a cell of the grid returns between 2 and 4 cells; each is a cell of the grid, one step
  up, down, left or right of the given cell; and the result is the list up, down, left,
  right, in this order, with the out-of-range positions left out. The lookup of bfs.js
  is the same list, filtered.
\<close>

theorem getNeighbors_bounds_and_order:
  assumes "valid_grid g" and "2 \<le> length g" and "2 \<le> length (g ! 0)"
    and "in_grid g (r, c)"
  shows "2 \<le> length (getNeighbors (r, c) g) \<and> length (getNeighbors (r, c) g) \<le> 4
    \<and> (\<forall>q \<in> set (getNeighbors (r, c) g). in_grid g q \<and>
          (q = (r - 1, c) \<and> 0 < r \<or> q = (r + 1, c) \<or> q = (r, c - 1) \<and> 0 < c \<or> q = (r, c + 1)))
    \<and> getNeighbors (r, c) g =
          filter (in_grid g)
            ((if 0 < r then [(r - 1, c)] else []) @ [(r + 1, c)] @
             (if 0 < c then [(r, c - 1)] else []) @ [(r, c + 1)])
    \<and> getUnvisitedNeighbors (r, c) g =
          filter (\<lambda>n. \<not> isVisited (cell g n) \<and> \<not> isWall (cell g n)) (getNeighbors (r, c) g)"
  using assms
  by (auto simp: getNeighbors_def getUnvisitedNeighbors_def in_grid_def Let_def)

theorem getNeighbors_bounds_and_order_witness:
  "getNeighbors (0, 1)
     [[createNode False (Fin 1), createNode False (Fin 1), createNode False (Fin 1)],
      [createNode False (Fin 1), createNode True Infinity, createNode False (Fin 1)]]
   = [(1, 1), (0, 0), (0, 2)]"
  using getNeighbors_bounds_and_order [of
     "[[createNode False (Fin 1), createNode False (Fin 1), createNode False (Fin 1)],
       [createNode False (Fin 1), createNode True Infinity, createNode False (Fin 1)]]" 0 1]
  by (simp add: valid_grid_def in_grid_def)


section \<open>A* search: the open list, the closed set and the visitation order\<close>

text \<open>
  The invariants below quantify over references, which are pairs; the simplifier is told
  not to split such quantifiers into one over rows and one over columns.
\<close>

declare split_paired_All [simp del] split_paired_Ex [simp del]

lemma same_static_refl: "valid_grid g \<Longrightarrow> same_static g g"
  by (simp add: same_static_def)

lemma same_static_in_grid: "same_static g0 g \<Longrightarrow> in_grid g p = in_grid g0 p"
  by (simp add: same_static_def in_grid_def)

lemma same_static_valid: "same_static g0 g \<Longrightarrow> valid_grid g"
  by (simp add: same_static_def)

lemma same_static_neighbors: "same_static g0 g \<Longrightarrow> getNeighbors n g = getNeighbors n g0"
  by (simp add: same_static_def getNeighbors_def)

lemma same_static_isWall:
  "same_static g0 g \<Longrightarrow> in_grid g0 p \<Longrightarrow> isWall (cell g p) = isWall (cell g0 p)"
  unfolding same_static_def by blast

lemma same_static_weight:
  "same_static g0 g \<Longrightarrow> in_grid g0 p \<Longrightarrow> weight (cell g p) = weight (cell g0 p)"
  unfolding same_static_def by blast

lemma same_static_update:
  assumes "same_static g0 g" and "in_grid g0 p"
    and "isWall (f (cell g p)) = isWall (cell g p)"
    and "weight (f (cell g p)) = weight (cell g p)"
  shows "same_static g0 (update_cell g p f)"
proof -
  have v: "valid_grid g" and ig: "in_grid g p"
    using assms(1,2) by (simp_all add: same_static_def in_grid_def)
  have "isWall (cell (update_cell g p f) q) = isWall (cell g0 q)
      \<and> weight (cell (update_cell g p f) q) = weight (cell g0 q)" if "in_grid g0 q" for q
    using that assms same_static_isWall [OF assms(1) that] same_static_weight [OF assms(1) that]
    by (auto simp: cell_update_cell [OF v ig])
  moreover have "valid_grid (update_cell g p f)" "length (update_cell g p f) = length g0"
    "length (update_cell g p f ! 0) = length (g0 ! 0)"
    using assms(1) by (simp_all add: same_static_def)
  ultimately show ?thesis
    unfolding same_static_def by blast
qed

lemma same_static_trans_cells:
  assumes "same_static g0 g" and "valid_grid g'" and "length g' = length g"
    and "length (g' ! 0) = length (g ! 0)"
    and "\<And>p. in_grid g0 p \<Longrightarrow> isWall (cell g' p) = isWall (cell g p) \<and> weight (cell g' p) = weight (cell g p)"
  shows "same_static g0 g'"
  using assms unfolding same_static_def by auto

lemma sort_key_pop:
  assumes "xs \<noteq> []"
  obtains y ys where "sort_key f xs = y # ys" and "y \<in> set xs"
    and "\<forall>p \<in> set xs. f y \<le> f p" and "set xs = insert y (set ys)"
    and "distinct xs \<Longrightarrow> distinct ys \<and> y \<notin> set ys" and "length xs = Suc (length ys)"
proof (cases "sort_key f xs")
  case Nil
  then have "length (sort_key f xs) = 0" by simp
  with assms show ?thesis by simp
next
  case (Cons y ys)
  have s: "set (y # ys) = set xs" and d: "distinct (y # ys) = distinct xs"
    and l: "length (y # ys) = length xs"
    by (simp_all add: Cons [symmetric])
  have "sorted (map f (y # ys))"
    unfolding Cons [symmetric] by (rule sorted_sort_key)
  then have "\<forall>p \<in> set (y # ys). f y \<le> f p" by auto
  then have m: "\<forall>p \<in> set xs. f y \<le> f p" unfolding s .
  show ?thesis
  proof (rule that [OF Cons])
    show "y \<in> set xs" using s by auto
    show "\<forall>p \<in> set xs. f y \<le> f p" by (rule m)
    show "set xs = insert y (set ys)" using s by auto
    show "distinct xs \<Longrightarrow> distinct ys \<and> y \<notin> set ys" using d by auto
    show "length xs = Suc (length ys)" using l by auto
  qed
qed

lemma astar_relax_eq:
  "astar_relax e c n s =
     (if improves (a_grid s) (a_closedSet s) c n
      then s\<lparr>a_grid := update_cell (a_grid s) n (\<lambda>_. relaxed (a_grid s) e c n),
             a_openList := (if n \<in> set (a_openList s) then a_openList s else a_openList s @ [n])\<rparr>
      else s)"
  by (auto simp: astar_relax_def improves_def relaxed_def tentative_def Let_def update_cell_def cell_def)

lemma fold_astar_relax:
  assumes "valid_grid (a_grid s)" and "\<forall>n \<in> set ns. in_grid (a_grid s) n"
    and "distinct ns" and "c \<notin> set ns"
  shows "a_closedSet (fold (astar_relax e c) ns s) = a_closedSet s
    \<and> a_visited (fold (astar_relax e c) ns s) = a_visited s
    \<and> valid_grid (a_grid (fold (astar_relax e c) ns s))
    \<and> length (a_grid (fold (astar_relax e c) ns s)) = length (a_grid s)
    \<and> length (a_grid (fold (astar_relax e c) ns s) ! 0) = length (a_grid s ! 0)
    \<and> (\<forall>p. cell (a_grid (fold (astar_relax e c) ns s)) p =
          (if p \<in> set ns \<and> improves (a_grid s) (a_closedSet s) c p
           then relaxed (a_grid s) e c p else cell (a_grid s) p))
    \<and> a_openList (fold (astar_relax e c) ns s) =
          a_openList s @ filter (\<lambda>p. improves (a_grid s) (a_closedSet s) c p \<and> p \<notin> set (a_openList s)) ns"
  using assms
proof (induction ns rule: rev_induct)
  case Nil
  then show ?case by simp
next
  case (snoc n ns)
  define t where "t = fold (astar_relax e c) ns s"
  have ih: "a_closedSet t = a_closedSet s" "a_visited t = a_visited s" "valid_grid (a_grid t)"
    "length (a_grid t) = length (a_grid s)" "length (a_grid t ! 0) = length (a_grid s ! 0)"
    "\<And>p. cell (a_grid t) p = (if p \<in> set ns \<and> improves (a_grid s) (a_closedSet s) c p
           then relaxed (a_grid s) e c p else cell (a_grid s) p)"
    "a_openList t = a_openList s @ filter (\<lambda>p. improves (a_grid s) (a_closedSet s) c p \<and> p \<notin> set (a_openList s)) ns"
    using snoc unfolding t_def by auto
  have n: "n \<notin> set ns" "n \<noteq> c" "c \<notin> set ns" "in_grid (a_grid s) n"
    using snoc.prems by auto
  have cn: "cell (a_grid t) n = cell (a_grid s) n" and cc: "cell (a_grid t) c = cell (a_grid s) c"
    using n by (simp_all add: ih(6))
  have imp: "improves (a_grid t) (a_closedSet t) c n = improves (a_grid s) (a_closedSet s) c n"
    by (simp add: improves_def tentative_def cn cc ih(1))
  have rel: "relaxed (a_grid t) e c n = relaxed (a_grid s) e c n"
    by (simp add: relaxed_def tentative_def cn cc)
  have ign: "in_grid (a_grid t) n"
    using n(4) ih(4,5) by (simp add: in_grid_def)
  have f: "fold (astar_relax e c) (ns @ [n]) s = astar_relax e c n t"
    by (simp add: t_def)
  have nt: "n \<in> set (a_openList t) \<longleftrightarrow> n \<in> set (a_openList s)"
    using n(1) by (auto simp: ih(7))
  show ?case
  proof (cases "improves (a_grid s) (a_closedSet s) c n")
    case False
    then have "astar_relax e c n t = t"
      by (simp add: astar_relax_eq imp)
    with False show ?thesis
      unfolding f using ih by auto
  next
    case True
    then have r: "astar_relax e c n t =
       t\<lparr>a_grid := update_cell (a_grid t) n (\<lambda>_. relaxed (a_grid s) e c n),
         a_openList := (if n \<in> set (a_openList s) then a_openList t else a_openList t @ [n])\<rparr>"
      by (simp add: astar_relax_eq imp rel nt)
    show ?thesis
      unfolding f r using True ih n
      by (auto simp: cell_update_cell [OF ih(3) ign])
  qed
qed

lemma astar_body_eq:
  "astar_body e s =
     (if isWall (cell (a_grid s) (astar_current s)) \<or> astar_current s \<in> a_closedSet s
      then Continue (astar_popped s)
      else if distance (cell (a_grid s) (astar_current s)) = Infinity then Return (astar_popped s)
      else if astar_current s = e then Return (astar_closed s)
      else Continue (astar_expanded e s))"
  by (simp add: astar_body_def astar_current_def astar_popped_def astar_closed_def
      astar_expanded_def Let_def)

lemma astar_pop_facts:
  assumes "a_openList s \<noteq> []"
  shows "astar_current s \<in> set (a_openList s)"
    and "set (a_openList s) = insert (astar_current s) (set (a_openList (astar_popped s)))"
    and "distinct (a_openList s) \<Longrightarrow>
           distinct (a_openList (astar_popped s)) \<and> astar_current s \<notin> set (a_openList (astar_popped s))"
    and "length (a_openList s) = Suc (length (a_openList (astar_popped s)))"
    and "\<forall>p \<in> set (a_openList s).
           totalCost (cell (a_grid s) (astar_current s)) \<le> totalCost (cell (a_grid s) p)"
proof -
  obtain y ys where *: "sort_key (\<lambda>n. totalCost (cell (a_grid s) n)) (a_openList s) = y # ys"
    "y \<in> set (a_openList s)"
    "\<forall>p \<in> set (a_openList s). totalCost (cell (a_grid s) y) \<le> totalCost (cell (a_grid s) p)"
    "set (a_openList s) = insert y (set ys)"
    "distinct (a_openList s) \<Longrightarrow> distinct ys \<and> y \<notin> set ys"
    "length (a_openList s) = Suc (length ys)"
    using sort_key_pop [OF assms, of "\<lambda>n. totalCost (cell (a_grid s) n)"] by blast
  have c: "astar_current s = y" and r: "a_openList (astar_popped s) = ys"
    by (simp_all add: astar_current_def astar_popped_def *(1))
  show "astar_current s \<in> set (a_openList s)" using *(2) c by simp
  show "set (a_openList s) = insert (astar_current s) (set (a_openList (astar_popped s)))"
    using *(4) c r by simp
  show "distinct (a_openList s) \<Longrightarrow>
           distinct (a_openList (astar_popped s)) \<and> astar_current s \<notin> set (a_openList (astar_popped s))"
    using *(5) c r by simp
  show "length (a_openList s) = Suc (length (a_openList (astar_popped s)))"
    using *(6) r by simp
  show "\<forall>p \<in> set (a_openList s).
           totalCost (cell (a_grid s) (astar_current s)) \<le> totalCost (cell (a_grid s) p)"
    using *(3) c by simp
qed

lemma astar_popped_simps [simp]:
  "a_grid (astar_popped s) = a_grid s" "a_closedSet (astar_popped s) = a_closedSet s"
  "a_visited (astar_popped s) = a_visited s"
  by (simp_all add: astar_popped_def)

lemma astar_closed_simps [simp]:
  "a_closedSet (astar_closed s) = insert (astar_current s) (a_closedSet s)"
  "a_visited (astar_closed s) = a_visited s @ [astar_current s]"
  "a_openList (astar_closed s) = a_openList (astar_popped s)"
  "a_grid (astar_closed s) = update_cell (a_grid s) (astar_current s) (\<lambda>n. n\<lparr>isVisited := True\<rparr>)"
  by (simp_all add: astar_closed_def)

lemma not_self_neighbor: "n \<notin> set (getNeighbors n g)"
  by (cases n) (auto simp: getNeighbors_def Let_def)

lemma astar_expanded_facts:
  assumes v: "valid_grid (a_grid s)" and c: "in_grid (a_grid s) (astar_current s)"
  shows "a_closedSet (astar_expanded e s) = insert (astar_current s) (a_closedSet s)"
    and "a_visited (astar_expanded e s) = a_visited s @ [astar_current s]"
    and "valid_grid (a_grid (astar_expanded e s))"
    and "length (a_grid (astar_expanded e s)) = length (a_grid s)"
    and "length (a_grid (astar_expanded e s) ! 0) = length (a_grid s ! 0)"
    and "\<And>p. cell (a_grid (astar_expanded e s)) p =
          (if p \<in> set (getNeighbors (astar_current s) (a_grid s)) \<and>
              improves (a_grid s) (insert (astar_current s) (a_closedSet s)) (astar_current s) p
           then relaxed (a_grid s) e (astar_current s) p
           else if p = astar_current s then (cell (a_grid s) p)\<lparr>isVisited := True\<rparr>
           else cell (a_grid s) p)"
    and "a_openList (astar_expanded e s) =
          a_openList (astar_popped s) @
          filter (\<lambda>p. improves (a_grid s) (insert (astar_current s) (a_closedSet s)) (astar_current s) p
                       \<and> p \<notin> set (a_openList (astar_popped s)))
            (getNeighbors (astar_current s) (a_grid s))"
proof -
  define cur where "cur = astar_current s"
  define s2 where "s2 = astar_closed s"
  define ns where "ns = getNeighbors cur (a_grid s)"
  have g2: "a_grid s2 = update_cell (a_grid s) cur (\<lambda>n. n\<lparr>isVisited := True\<rparr>)"
    by (simp add: s2_def cur_def)
  have c2: "\<And>p. cell (a_grid s2) p = (if p = cur then (cell (a_grid s) p)\<lparr>isVisited := True\<rparr>
                                         else cell (a_grid s) p)"
    unfolding g2 using c by (simp add: cell_update_cell [OF v] cur_def)
  have v2: "valid_grid (a_grid s2)" using v by (simp add: g2)
  have ns2: "\<forall>n \<in> set ns. in_grid (a_grid s2) n"
    using getNeighbors_in_grid [OF c] by (auto simp: g2 ns_def cur_def)
  note fl0 = fold_astar_relax [OF v2 ns2, of cur e, unfolded ns_def,
      OF getNeighbors_distinct not_self_neighbor, folded ns_def]
  have fl: "a_closedSet (fold (astar_relax e cur) ns s2) = a_closedSet s2"
    "a_visited (fold (astar_relax e cur) ns s2) = a_visited s2"
    "valid_grid (a_grid (fold (astar_relax e cur) ns s2))"
    "length (a_grid (fold (astar_relax e cur) ns s2)) = length (a_grid s2)"
    "length (a_grid (fold (astar_relax e cur) ns s2) ! 0) = length (a_grid s2 ! 0)"
    "\<And>p. cell (a_grid (fold (astar_relax e cur) ns s2)) p =
          (if p \<in> set ns \<and> improves (a_grid s2) (a_closedSet s2) cur p
           then relaxed (a_grid s2) e cur p else cell (a_grid s2) p)"
    "a_openList (fold (astar_relax e cur) ns s2) =
          a_openList s2 @ filter (\<lambda>p. improves (a_grid s2) (a_closedSet s2) cur p \<and> p \<notin> set (a_openList s2)) ns"
    using fl0 by blast+
  have ex: "astar_expanded e s = fold (astar_relax e cur) ns s2"
    by (simp add: astar_expanded_def cur_def ns_def s2_def)
  have cl2: "a_closedSet s2 = insert cur (a_closedSet s)"
    by (simp add: s2_def cur_def)
  have imp: "improves (a_grid s2) (insert cur (a_closedSet s)) cur p
      = improves (a_grid s) (insert cur (a_closedSet s)) cur p" for p
    by (cases "p = cur") (simp_all add: improves_def tentative_def c2)
  have rel: "p \<noteq> cur \<Longrightarrow> relaxed (a_grid s2) e cur p = relaxed (a_grid s) e cur p" for p
    by (simp add: relaxed_def tentative_def c2)
  have ncur: "cur \<notin> set ns" by (simp add: ns_def not_self_neighbor)
  show "a_closedSet (astar_expanded e s) = insert (astar_current s) (a_closedSet s)"
    using fl by (simp add: ex cl2 cur_def)
  show "a_visited (astar_expanded e s) = a_visited s @ [astar_current s]"
    using fl by (simp add: ex s2_def)
  show "valid_grid (a_grid (astar_expanded e s))"
    using fl by (simp add: ex)
  show "length (a_grid (astar_expanded e s)) = length (a_grid s)"
    using fl by (simp add: ex g2)
  show "length (a_grid (astar_expanded e s) ! 0) = length (a_grid s ! 0)"
    using fl by (simp add: ex g2)
  show "cell (a_grid (astar_expanded e s)) p =
          (if p \<in> set (getNeighbors (astar_current s) (a_grid s)) \<and>
              improves (a_grid s) (insert (astar_current s) (a_closedSet s)) (astar_current s) p
           then relaxed (a_grid s) e (astar_current s) p
           else if p = astar_current s then (cell (a_grid s) p)\<lparr>isVisited := True\<rparr>
           else cell (a_grid s) p)" for p
  proof -
    have "cell (a_grid (astar_expanded e s)) p =
          (if p \<in> set ns \<and> improves (a_grid s2) (a_closedSet s2) cur p
           then relaxed (a_grid s2) e cur p else cell (a_grid s2) p)"
      using fl by (simp add: ex)
    also have "\<dots> = (if p \<in> set ns \<and> improves (a_grid s) (insert cur (a_closedSet s)) cur p
           then relaxed (a_grid s) e cur p
           else if p = cur then (cell (a_grid s) p)\<lparr>isVisited := True\<rparr>
           else cell (a_grid s) p)"
      using ncur by (auto simp: cl2 imp rel c2)
    finally show ?thesis by (simp add: ns_def cur_def)
  qed
  show "a_openList (astar_expanded e s) =
          a_openList (astar_popped s) @
          filter (\<lambda>p. improves (a_grid s) (insert (astar_current s) (a_closedSet s)) (astar_current s) p
                       \<and> p \<notin> set (a_openList (astar_popped s)))
            (getNeighbors (astar_current s) (a_grid s))"
    using fl by (simp add: ex cl2 imp) (simp add: s2_def ns_def cur_def)
qed

lemma jsnum_less_Fin: "(x::jsnum) < y \<Longrightarrow> \<exists>d. x = Fin d"
  by (cases x) auto

lemma js_add_Fin0 [simp]: "js_add (Fin 0) (heuristic p e) = heuristic p e"
  by (simp add: heuristic_def)

lemma astar_inv0_init:
  assumes "valid_grid g0" and "in_grid g0 start"
  shows "astar_inv0 g0 e (astar_init g0 start e)"
proof -
  have "same_static g0 (a_grid (astar_init g0 start e))"
    unfolding astar_init_def using assms
    by (simp add: same_static_update same_static_refl)
  moreover have "\<exists>d. distance (cell (a_grid (astar_init g0 start e)) start) = Fin d \<and>
       totalCost (cell (a_grid (astar_init g0 start e)) start) = js_add (Fin d) (heuristic start e)"
    unfolding astar_init_def using assms by (simp add: cell_update_cell)
  ultimately show ?thesis
    using assms unfolding astar_inv0_def by (simp add: astar_init_def)
qed

lemma astar_inv0_step:
  assumes inv: "astar_inv0 g0 e s" and ne: "a_openList s \<noteq> []"
    and b: "astar_body e s = Continue s'"
  shows "astar_inv0 g0 e s'" and "(s', s) \<in> astar_rel g0"
proof -
  define cur where "cur = astar_current s"
  define rest where "rest = a_openList (astar_popped s)"
  define g where "g = a_grid s"
  have st: "same_static g0 g" and og: "\<forall>p \<in> set (a_openList s). in_grid g0 p"
    and od: "distinct (a_openList s)" and oc: "set (a_openList s) \<inter> a_closedSet s = {}"
    and cv: "a_closedSet s = set (a_visited s)" and vd: "distinct (a_visited s)"
    and cg: "\<forall>p \<in> a_closedSet s. in_grid g0 p \<and> \<not> isWall (cell g0 p)"
    and fin: "\<forall>p \<in> set (a_openList s) \<union> a_closedSet s.
           \<exists>d. distance (cell g p) = Fin d \<and> totalCost (cell g p) = js_add (Fin d) (heuristic p e)"
    using inv unfolding astar_inv0_def g_def by blast+
  note pf = astar_pop_facts [OF ne, folded cur_def rest_def]
  have co: "cur \<in> set (a_openList s)" by (rule pf(1))
  have so: "set (a_openList s) = insert cur (set rest)" by (rule pf(2))
  have rd: "distinct rest" and cr: "cur \<notin> set rest" using pf(3) od by auto
  have v: "valid_grid g" using st by (rule same_static_valid)
  have cg0: "in_grid g0 cur" using og co by blast
  have cgs: "in_grid g cur" using cg0 st by (simp add: same_static_in_grid)
  show "astar_inv0 g0 e s'" and "(s', s) \<in> astar_rel g0"
  proof (atomize (full), cases "isWall (cell g cur) \<or> cur \<in> a_closedSet s")
    case True
    then have s': "s' = astar_popped s"
      using b by (simp add: astar_body_eq cur_def g_def)
    have "astar_inv0 g0 e s'"
      unfolding astar_inv0_def s' using inv so rd oc
      by (auto simp: astar_inv0_def rest_def [symmetric])
    moreover have "(s', s) \<in> astar_rel g0"
      using pf(4) by (simp add: astar_rel_def s' rest_def)
    ultimately show "astar_inv0 g0 e s' \<and> (s', s) \<in> astar_rel g0" by blast
  next
    case False
    then have nw: "\<not> isWall (cell g cur)" and nc: "cur \<notin> a_closedSet s" by auto
    have s': "s' = astar_expanded e s"
      using b False by (simp add: astar_body_eq cur_def g_def split: if_splits)
    define ns where "ns = getNeighbors cur g"
    define imp where "imp = improves g (insert cur (a_closedSet s)) cur"
    note ef = astar_expanded_facts [OF v [unfolded g_def] cgs [unfolded g_def cur_def], of e,
        folded cur_def g_def, folded ns_def imp_def rest_def s']
    have cellf: "cell (a_grid s') p = (if p \<in> set ns \<and> imp p then relaxed g e cur p
           else if p = cur then (cell g p)\<lparr>isVisited := True\<rparr> else cell g p)" for p
      by (rule ef(6))
    have op: "a_openList s' = rest @ filter (\<lambda>p. imp p \<and> p \<notin> set rest) ns"
      by (rule ef(7))
    have nsg: "\<forall>p \<in> set ns. in_grid g0 p"
      using getNeighbors_in_grid [OF cgs] st by (auto simp: ns_def same_static_in_grid)
    have i1: "same_static g0 (a_grid s')"
    proof (rule same_static_trans_cells [OF st ef(3) ef(4) ef(5)])
      fix p assume "in_grid g0 p"
      show "isWall (cell (a_grid s') p) = isWall (cell g p)
          \<and> weight (cell (a_grid s') p) = weight (cell g p)"
        by (simp add: cellf relaxed_def)
    qed
    have i2: "\<forall>p \<in> set (a_openList s'). in_grid g0 p"
      using og so nsg by (auto simp: op)
    have i3: "distinct (a_openList s')"
      using rd by (auto simp: op ns_def getNeighbors_distinct)
    have i4: "set (a_openList s') \<inter> a_closedSet s' = {}"
      using oc so cr by (auto simp: op ef(1) imp_def improves_def)
    have i5: "a_closedSet s' = set (a_visited s')"
      by (simp add: ef(1) ef(2) cv)
    have i6: "distinct (a_visited s')"
      using vd nc cv by (simp add: ef(2))
    have i7: "\<forall>p \<in> a_closedSet s'. in_grid g0 p \<and> \<not> isWall (cell g0 p)"
      using cg cg0 nw same_static_isWall [OF st cg0] by (auto simp: ef(1))
    have i8: "\<exists>d. distance (cell (a_grid s') p) = Fin d \<and>
               totalCost (cell (a_grid s') p) = js_add (Fin d) (heuristic p e)"
      if "p \<in> set (a_openList s') \<union> a_closedSet s'" for p
    proof (cases "p \<in> set ns \<and> imp p")
      case True
      then have "tentative g cur p < distance (cell g p)"
        by (simp add: imp_def improves_def)
      then obtain d where "tentative g cur p = Fin d"
        using jsnum_less_Fin by blast
      then show ?thesis using True by (simp add: cellf relaxed_def)
    next
      case False
      then have "p \<in> set (a_openList s) \<union> a_closedSet s"
        using that so by (auto simp: op ef(1))
      then have "\<exists>d. distance (cell g p) = Fin d \<and> totalCost (cell g p) = js_add (Fin d) (heuristic p e)"
        using fin by blast
      then show ?thesis using False by (auto simp: cellf)
    qed
    have "astar_inv0 g0 e s'"
      unfolding astar_inv0_def using i1 i2 i3 i4 i5 i6 i7 i8 by blast
    moreover have "(s', s) \<in> astar_rel g0"
    proof -
      have "{p. in_grid g0 p} - insert cur (a_closedSet s) \<subset> {p. in_grid g0 p} - a_closedSet s"
        using cg0 nc by auto
      then have "card ({p. in_grid g0 p} - insert cur (a_closedSet s)) < card ({p. in_grid g0 p} - a_closedSet s)"
        by (intro psubset_card_mono finite_Diff finite_in_grid)
      then show ?thesis by (simp add: astar_rel_def ef(1))
    qed
    ultimately show "astar_inv0 g0 e s' \<and> (s', s) \<in> astar_rel g0" by blast
  qed
qed

lemma astar_inv0_return:
  assumes inv: "astar_inv0 g0 e s" and ne: "a_openList s \<noteq> []"
    and b: "astar_body e s = Return s'"
  shows "s' = astar_closed s" and "astar_current s = e" and "e \<notin> a_closedSet s"
    and "astar_inv0 g0 e s'"
proof -
  define cur where "cur = astar_current s"
  define rest where "rest = a_openList (astar_popped s)"
  define g where "g = a_grid s"
  have st: "same_static g0 g" and og: "\<forall>p \<in> set (a_openList s). in_grid g0 p"
    and od: "distinct (a_openList s)" and oc: "set (a_openList s) \<inter> a_closedSet s = {}"
    and cv: "a_closedSet s = set (a_visited s)" and vd: "distinct (a_visited s)"
    and cg: "\<forall>p \<in> a_closedSet s. in_grid g0 p \<and> \<not> isWall (cell g0 p)"
    and fin: "\<forall>p \<in> set (a_openList s) \<union> a_closedSet s.
           \<exists>d. distance (cell g p) = Fin d \<and> totalCost (cell g p) = js_add (Fin d) (heuristic p e)"
    using inv unfolding astar_inv0_def g_def by blast+
  note pf = astar_pop_facts [OF ne, folded cur_def rest_def]
  have co: "cur \<in> set (a_openList s)" by (rule pf(1))
  have so: "set (a_openList s) = insert cur (set rest)" by (rule pf(2))
  have rd: "distinct rest" and cr: "cur \<notin> set rest" using pf(3) od by auto
  have v: "valid_grid g" using st by (rule same_static_valid)
  have cg0: "in_grid g0 cur" using og co by blast
  have cgs: "in_grid g cur" using cg0 st by (simp add: same_static_in_grid)
  have "\<exists>d. distance (cell g cur) = Fin d" using fin co by blast
  then have "distance (cell g cur) \<noteq> Infinity" by auto
  then have *: "s' = astar_closed s \<and> cur = e \<and> \<not> isWall (cell g cur) \<and> cur \<notin> a_closedSet s"
    using b by (simp add: astar_body_eq cur_def g_def split: if_splits)
  then show "s' = astar_closed s" and "astar_current s = e" and "e \<notin> a_closedSet s"
    by (auto simp: cur_def)
  have "a_grid s' = update_cell g cur (\<lambda>n. n\<lparr>isVisited := True\<rparr>)"
    using * by (simp add: g_def cur_def)
  then have cellf: "cell (a_grid s') p = (if p = cur then (cell g p)\<lparr>isVisited := True\<rparr> else cell g p)" for p
    by (simp add: cell_update_cell [OF v cgs])
  have i1: "same_static g0 (a_grid s')"
    using * st cg0 by (simp add: same_static_update g_def cur_def)
  have i8: "\<exists>d. distance (cell (a_grid s') p) = Fin d \<and>
               totalCost (cell (a_grid s') p) = js_add (Fin d) (heuristic p e)"
      if "p \<in> set (a_openList s') \<union> a_closedSet s'" for p
  proof -
    have "p \<in> set (a_openList s) \<union> a_closedSet s"
      using that * so by (auto simp: rest_def cur_def)
    then have "\<exists>d. distance (cell g p) = Fin d \<and> totalCost (cell g p) = js_add (Fin d) (heuristic p e)"
      using fin by blast
    then show ?thesis by (auto simp: cellf)
  qed
  have i2: "\<forall>p \<in> set (a_openList s'). in_grid g0 p"
    using og so * by (auto simp: rest_def)
  have i3: "distinct (a_openList s')" using rd * by (simp add: rest_def)
  have i4: "set (a_openList s') \<inter> a_closedSet s' = {}"
    using oc so cr * by (auto simp: rest_def cur_def)
  have i5: "a_closedSet s' = set (a_visited s')" using * cv by simp
  have i6: "distinct (a_visited s')" using * vd cv by (auto simp: cur_def)
  have i7: "\<forall>p \<in> a_closedSet s'. in_grid g0 p \<and> \<not> isWall (cell g0 p)"
    using cg cg0 * same_static_isWall [OF st cg0] by (auto simp: cur_def)
  show "astar_inv0 g0 e s'"
    unfolding astar_inv0_def using i1 i2 i3 i4 i5 i6 i7 i8 by blast
qed

lemma wf_astar_rel: "wf (astar_rel g0)"
  unfolding astar_rel_def by (intro wf_inv_image wf_lex_prod wf_less_than)

lemma astar_while_rule:
  assumes wf: "wf R" and I: "I s"
    and cont: "\<And>s s'. I s \<Longrightarrow> a_openList s \<noteq> [] \<Longrightarrow> astar_body e s = Continue s'
                 \<Longrightarrow> I s' \<and> (s', s) \<in> R"
    and ret: "\<And>s s'. I s \<Longrightarrow> a_openList s \<noteq> [] \<Longrightarrow> astar_body e s = Return s' \<Longrightarrow> Q s'"
    and ext: "\<And>s. I s \<Longrightarrow> a_openList s = [] \<Longrightarrow> Q s"
  shows "\<exists>s'. astar_while e s = Some s' \<and> Q s'"
  using wf I
proof (induction s rule: wf_induct_rule)
  case (less s)
  show ?case
  proof (cases "a_openList s = []")
    case True
    then have "astar_while e s = Some s" by (subst astar_while.simps) simp
    then show ?thesis using ext [OF less.prems True] by simp
  next
    case False
    show ?thesis
    proof (cases "astar_body e s")
      case (Continue s')
      then have "I s'" and "(s', s) \<in> R"
        using cont [OF less.prems False] by auto
      then obtain t where "astar_while e s' = Some t" and "Q t"
        using less.IH by blast
      moreover have "astar_while e s = astar_while e s'"
        using False Continue by (subst astar_while.simps) simp
      ultimately show ?thesis by simp
    next
      case (Return s')
      then have "Q s'" using ret [OF less.prems False] by auto
      moreover have "astar_while e s = Some s'"
        using False Return by (subst astar_while.simps) simp
      ultimately show ?thesis by simp
    qed
  qed
qed







section \<open>Paths and predecessor links\<close>

lemma all_cells_cell:
  assumes "all_cells P g" and "valid_grid g" and "in_grid g p"
  shows "P (cell g p)"
proof -
  have "fst p < length g" and "snd p < length (g ! fst p)"
    using assms(2,3) valid_grid_row_length by (auto simp: in_grid_def)
  then have "g ! fst p \<in> set g" and "g ! fst p ! snd p \<in> set (g ! fst p)"
    by simp_all
  with assms(1) show ?thesis unfolding all_cells_def cell_def by blast
qed

lemma getNeighbors_adjacent:
  "in_grid g p \<Longrightarrow> q \<in> set (getNeighbors p g) \<longleftrightarrow> adjacent p q \<and> in_grid g q"
  by (cases p; cases q) (auto simp: getNeighbors_def adjacent_def in_grid_def Let_def)

lemma adjacent_sym: "adjacent p q \<Longrightarrow> adjacent q p"
  by (auto simp: adjacent_def)

lemma is_path_snoc:
  "is_path g (ps @ [q]) \<longleftrightarrow>
     (if ps = [] then passable g q else is_path g ps \<and> adjacent (last ps) q \<and> passable g q)"
  by (induction g ps rule: is_path.induct) auto

lemma is_path_last_passable: "is_path g ps \<Longrightarrow> passable g (last ps)"
  by (induction g ps rule: is_path.induct) auto

lemma is_path_all_passable: "is_path g ps \<Longrightarrow> p \<in> set ps \<Longrightarrow> passable g p"
  by (induction g ps rule: is_path.induct) auto

lemma js_add_assoc: "js_add (js_add a b) c = js_add a (js_add b c)"
  by (cases a; cases b; cases c) auto

lemma js_add_commute: "js_add a b = js_add b a"
  by (cases a; cases b) auto

lemma js_add_0 [simp]: "js_add (Fin 0) c = c" "js_add c (Fin 0) = c"
  by (cases c; simp)+

lemma foldr_js_add:
  "foldr (\<lambda>p. js_add (f p)) xs c = js_add (foldr (\<lambda>p. js_add (f p)) xs (Fin 0)) c"
  by (induction xs) (simp_all add: js_add_assoc)

lemma path_cost_single [simp]: "path_cost g [p] = Fin 0"
  by (simp add: path_cost_def)

lemma path_cost_snoc:
  "ps \<noteq> [] \<Longrightarrow> path_cost g (ps @ [q]) = js_add (path_cost g ps) (weight (cell g q))"
  unfolding path_cost_def
  using foldr_js_add [of "\<lambda>p. weight (cell g p)" "tl ps" "weight (cell g q)"] by simp

lemma before_append: "before xs a b \<Longrightarrow> before (xs @ ys) a b"
  unfolding before_def
  by (metis length_append nth_append trans_less_add1 less_trans)

lemma before_snoc: "a \<in> set xs \<Longrightarrow> before (xs @ [b]) a b"
  unfolding before_def
  by (metis in_set_conv_nth length_append_singleton lessI nth_append nth_append_length)

lemma before_index:
  assumes "before xs a (xs ! j)" and "distinct xs" and "j < length xs"
  obtains i where "i < j" and "xs ! i = a"
  using assms unfolding before_def
  by (metis nth_eq_iff_index_eq)

lemma path_while_None:
  "previousNode (cell g p) = None \<Longrightarrow> path_while g (Some p) acc = Some (p # acc)"
  by (subst path_while.simps, simp, subst path_while.simps, simp)

lemma path_while_Some:
  "previousNode (cell g p) = Some q \<Longrightarrow> path_while g (Some p) acc = path_while g (Some q) (p # acc)"
  by (subst path_while.simps) simp

lemma walk_along:
  assumes d: "distinct vs"
    and s: "previousNode (cell g start) = None"
    and link: "\<And>p. p \<in> set vs \<Longrightarrow> p \<noteq> start \<Longrightarrow>
        \<exists>q. previousNode (cell g p) = Some q \<and> before vs q p \<and> adjacent q p"
    and pass: "\<And>p. p \<in> set vs \<Longrightarrow> passable g0 p"
    and p: "p \<in> set vs"
  shows "\<exists>xs. (\<forall>acc. path_while g (Some p) acc = Some (xs @ acc)) \<and> is_path g0 xs \<and>
           hd xs = start \<and> last xs = p \<and> set xs \<subseteq> set vs \<and>
           (\<forall>i. Suc i < length xs \<longrightarrow> previousNode (cell g (xs ! Suc i)) = Some (xs ! i))"
proof -
  have "\<exists>xs. (\<forall>acc. path_while g (Some (vs ! j)) acc = Some (xs @ acc)) \<and> is_path g0 xs \<and>
           hd xs = start \<and> last xs = vs ! j \<and> set xs \<subseteq> set vs \<and>
           (\<forall>i. Suc i < length xs \<longrightarrow> previousNode (cell g (xs ! Suc i)) = Some (xs ! i))"
    if "j < length vs" for j
    using that
  proof (induction j rule: less_induct)
    case (less j)
    then have mem: "vs ! j \<in> set vs" by simp
    show ?case
    proof (cases "vs ! j = start")
      case True
      have "\<forall>acc. path_while g (Some (vs ! j)) acc = Some ([start] @ acc)"
        using s True by (simp add: path_while_None)
      moreover have "is_path g0 [start]" using pass [OF mem] True by simp
      ultimately show ?thesis using True mem
        by (intro exI [of _ "[start]"]) simp
    next
      case False
      then obtain q where q: "previousNode (cell g (vs ! j)) = Some q"
        and b: "before vs q (vs ! j)" and a: "adjacent q (vs ! j)"
        using link [OF mem] by blast
      obtain i where i: "i < j" and qi: "vs ! i = q"
        using b d less.prems by (rule before_index)
      have "i < length vs" using i less.prems by simp
      then obtain xs where xs: "\<forall>acc. path_while g (Some q) acc = Some (xs @ acc)"
        "is_path g0 xs" "hd xs = start" "last xs = q" "set xs \<subseteq> set vs"
        "\<forall>i. Suc i < length xs \<longrightarrow> previousNode (cell g (xs ! Suc i)) = Some (xs ! i)"
        using less.IH [OF i] qi by blast
      have ne: "xs \<noteq> []" using xs(2) by auto
      let ?ys = "xs @ [vs ! j]"
      have 1: "\<forall>acc. path_while g (Some (vs ! j)) acc = Some (?ys @ acc)"
        using xs(1) by (simp add: path_while_Some [OF q])
      have 2: "is_path g0 ?ys"
        using xs(2,4) a pass [OF mem] ne by (simp add: is_path_snoc)
      have 3: "hd ?ys = start" "last ?ys = vs ! j" "set ?ys \<subseteq> set vs"
        using xs(3,5) ne mem by auto
      have 4: "previousNode (cell g (?ys ! Suc k)) = Some (?ys ! k)" if "Suc k < length ?ys" for k
      proof (cases "Suc k < length xs")
        case True
        then show ?thesis using xs(6) by (simp add: nth_append)
      next
        case False
        then have k: "Suc k = length xs" using that by simp
        then have "?ys ! Suc k = vs ! j" by (simp add: nth_append)
        moreover have "k = length xs - 1" using k by simp
        then have "?ys ! k = q"
          using k xs(4) ne by (simp add: nth_append last_conv_nth)
        ultimately show ?thesis using q by simp
      qed
      show ?thesis
        using 1 2 3 4 by (intro exI [of _ ?ys]) blast
    qed
  qed
  then show ?thesis using p by (metis in_set_conv_nth)
qed

lemma astar_expand_step:
  assumes inv: "astar_inv0 g0 e s" and ne: "a_openList s \<noteq> []"
    and nw: "\<forall>p \<in> set (a_openList s). \<not> isWall (cell g0 p)"
    and b: "astar_body e s = Continue s'"
  shows "astar_current s \<in> set (a_openList s)"
    and "astar_current s \<noteq> e"
    and "astar_current s \<notin> a_closedSet s"
    and "set (a_openList s) = insert (astar_current s) (set (a_openList (astar_popped s)))"
    and "astar_current s \<notin> set (a_openList (astar_popped s))"
    and "a_closedSet s' = insert (astar_current s) (a_closedSet s)"
    and "a_visited s' = a_visited s @ [astar_current s]"
    and "\<And>p. cell (a_grid s') p =
          (if adjacent (astar_current s) p \<and> in_grid g0 p \<and>
              improves (a_grid s) (insert (astar_current s) (a_closedSet s)) (astar_current s) p
           then relaxed (a_grid s) e (astar_current s) p
           else if p = astar_current s then (cell (a_grid s) p)\<lparr>isVisited := True\<rparr>
           else cell (a_grid s) p)"
    and "set (a_openList s') = set (a_openList (astar_popped s)) \<union>
           {p. adjacent (astar_current s) p \<and> in_grid g0 p \<and>
               improves (a_grid s) (insert (astar_current s) (a_closedSet s)) (astar_current s) p}"
    and "\<forall>p \<in> set (a_openList s).
           totalCost (cell (a_grid s) (astar_current s)) \<le> totalCost (cell (a_grid s) p)"
proof -
  define cur where "cur = astar_current s"
  define g where "g = a_grid s"
  have st: "same_static g0 g" and og: "\<forall>p \<in> set (a_openList s). in_grid g0 p"
    and od: "distinct (a_openList s)" and oc: "set (a_openList s) \<inter> a_closedSet s = {}"
    using inv unfolding astar_inv0_def g_def by blast+
  note pf = astar_pop_facts [OF ne, folded cur_def]
  have v: "valid_grid g" using st by (rule same_static_valid)
  have cg0: "in_grid g0 cur" using og pf(1) by blast
  have cgs: "in_grid g cur" using cg0 st by (simp add: same_static_in_grid)
  have nwc: "\<not> isWall (cell g cur)"
    using nw pf(1) same_static_isWall [OF st cg0] by simp
  have nc: "cur \<notin> a_closedSet s" using oc pf(1) by blast
  have s': "s' = astar_expanded e s" and ce: "cur \<noteq> e"
    using b nwc nc by (simp_all add: astar_body_eq cur_def g_def split: if_splits)
  note ef = astar_expanded_facts [OF v [unfolded g_def] cgs [unfolded g_def cur_def], of e,
        folded cur_def g_def, folded s']
  have nb: "p \<in> set (getNeighbors cur g) \<longleftrightarrow> adjacent cur p \<and> in_grid g0 p" for p
    using getNeighbors_adjacent [OF cgs] st by (simp add: same_static_in_grid)
  show "astar_current s \<in> set (a_openList s)" using pf(1) by (simp add: cur_def)
  show "astar_current s \<noteq> e" using ce by (simp add: cur_def)
  show "astar_current s \<notin> a_closedSet s" using nc by (simp add: cur_def)
  show "set (a_openList s) = insert (astar_current s) (set (a_openList (astar_popped s)))"
    using pf(2) by (simp add: cur_def)
  show "astar_current s \<notin> set (a_openList (astar_popped s))"
    using pf(3) od by (simp add: cur_def)
  show "a_closedSet s' = insert (astar_current s) (a_closedSet s)"
    using ef(1) by (simp add: cur_def)
  show "a_visited s' = a_visited s @ [astar_current s]"
    using ef(2) by (simp add: cur_def)
  show "cell (a_grid s') p =
          (if adjacent (astar_current s) p \<and> in_grid g0 p \<and>
              improves (a_grid s) (insert (astar_current s) (a_closedSet s)) (astar_current s) p
           then relaxed (a_grid s) e (astar_current s) p
           else if p = astar_current s then (cell (a_grid s) p)\<lparr>isVisited := True\<rparr>
           else cell (a_grid s) p)" for p
    using ef(6) [of p] nb [of p] by (simp add: cur_def g_def conj_assoc)
  show "set (a_openList s') = set (a_openList (astar_popped s)) \<union>
           {p. adjacent (astar_current s) p \<and> in_grid g0 p \<and>
               improves (a_grid s) (insert (astar_current s) (a_closedSet s)) (astar_current s) p}"
    using nb by (auto simp: ef(7) cur_def g_def)
  show "\<forall>p \<in> set (a_openList s).
           totalCost (cell (a_grid s) (astar_current s)) \<le> totalCost (cell (a_grid s) p)"
    using pf(5) by (simp add: cur_def)
qed

lemma astar_return_step:
  assumes inv: "astar_inv0 g0 e s" and ne: "a_openList s \<noteq> []"
    and b: "astar_body e s = Return s'"
  shows "astar_current s = e"
    and "e \<in> set (a_openList s)"
    and "e \<notin> a_closedSet s"
    and "set (a_openList s) = insert e (set (a_openList s'))"
    and "a_closedSet s' = insert e (a_closedSet s)"
    and "a_visited s' = a_visited s @ [e]"
    and "\<And>p. cell (a_grid s') p =
          (if p = e then (cell (a_grid s) p)\<lparr>isVisited := True\<rparr> else cell (a_grid s) p)"
    and "\<forall>p \<in> set (a_openList s).
           totalCost (cell (a_grid s) e) \<le> totalCost (cell (a_grid s) p)"
proof -
  note r = astar_inv0_return [OF inv ne b]
  note pf = astar_pop_facts [OF ne, unfolded r(2)]
  have st: "same_static g0 (a_grid s)" and og: "\<forall>p \<in> set (a_openList s). in_grid g0 p"
    using inv unfolding astar_inv0_def by blast+
  have v: "valid_grid (a_grid s)" using st by (rule same_static_valid)
  have cgs: "in_grid (a_grid s) e" using og pf(1) st by (simp add: same_static_in_grid)
  show "astar_current s = e" by (rule r(2))
  show "e \<in> set (a_openList s)" by (rule pf(1))
  show "e \<notin> a_closedSet s" by (rule r(3))
  show "set (a_openList s) = insert e (set (a_openList s'))"
    using pf(2) by (simp add: r(1))
  show "a_closedSet s' = insert e (a_closedSet s)" by (simp add: r(1) r(2))
  show "a_visited s' = a_visited s @ [e]" by (simp add: r(1) r(2))
  show "cell (a_grid s') p =
          (if p = e then (cell (a_grid s) p)\<lparr>isVisited := True\<rparr> else cell (a_grid s) p)" for p
    by (simp add: r(1) r(2) cell_update_cell [OF v cgs])
  show "\<forall>p \<in> set (a_openList s).
           totalCost (cell (a_grid s) e) \<le> totalCost (cell (a_grid s) p)"
    by (rule pf(5))
qed

lemma astar_init_cell:
  assumes "valid_grid g0" and "in_grid g0 start"
  shows "cell (a_grid (astar_init g0 start e)) p =
     (if p = start then (cell g0 start)\<lparr>distance := Fin 0, totalCost := heuristic start e\<rparr>
      else cell g0 p)"
  using assms by (simp add: astar_init_def cell_update_cell)

lemma astar_invP_init:
  assumes v: "valid_grid g0" and s: "in_grid g0 start" and nw: "\<not> isWall (cell g0 start)"
    and r: "all_cells (\<lambda>n. previousNode n = None) g0"
  shows "astar_invP g0 start (astar_init g0 start e)"
proof -
  have "previousNode (cell (a_grid (astar_init g0 start e)) p) = None" if "in_grid g0 p" for p
    using all_cells_cell [OF r v that] all_cells_cell [OF r v s]
    by (simp add: astar_init_cell [OF v s])
  moreover have "distance (cell (a_grid (astar_init g0 start e)) start) = Fin 0"
    by (simp add: astar_init_cell [OF v s])
  moreover have "a_openList (astar_init g0 start e) = [start]"
    "a_closedSet (astar_init g0 start e) = {}"
    by (simp_all add: astar_init_def)
  ultimately show ?thesis
    unfolding astar_invP_def using nw s by auto
qed

lemma astar_invP_step:
  assumes inv: "astar_inv0 g0 e s" and invP: "astar_invP g0 start s"
    and ne: "a_openList s \<noteq> []" and b: "astar_body e s = Continue s'"
  shows "astar_invP g0 start s'"
proof -
  define cur where "cur = astar_current s"
  define g where "g = a_grid s"
  define rest where "rest = a_openList (astar_popped s)"
  define cl' where "cl' = insert cur (a_closedSet s)"
  define imp where "imp p \<longleftrightarrow> adjacent cur p \<and> in_grid g0 p \<and> improves g cl' cur p" for p
  have S: "a_openList s = [start] \<and> a_closedSet s = {} \<or> start \<in> a_closedSet s"
    and ps: "previousNode (cell g start) = None"
    and ds: "distance (cell g start) = Fin 0"
    and N: "\<forall>p \<in> set (a_openList s). \<not> isWall (cell g0 p)"
    and U: "\<forall>p. in_grid g0 p \<and> p \<notin> set (a_openList s) \<union> a_closedSet s \<longrightarrow>
            previousNode (cell g p) = None"
    and C: "\<forall>p \<in> set (a_openList s) \<union> a_closedSet s. p \<noteq> start \<longrightarrow>
           (\<exists>q. previousNode (cell g p) = Some q \<and> q \<in> a_closedSet s \<and> adjacent q p
              \<and> distance (cell g p) = js_add (distance (cell g q)) (weight_or_1 (weight (cell g0 p)))
              \<and> (p \<in> a_closedSet s \<longrightarrow> before (a_visited s) q p))"
    using invP unfolding astar_invP_def g_def by blast+
  have st: "same_static g0 g" and cv: "a_closedSet s = set (a_visited s)"
    using inv unfolding astar_inv0_def g_def by blast+
  note es = astar_expand_step [OF inv ne N b, folded cur_def g_def rest_def, folded cl'_def,
      folded imp_def]
  have co: "cur \<in> set (a_openList s)" by (rule es(1))
  have nc: "cur \<notin> a_closedSet s" by (rule es(3))
  have so: "set (a_openList s) = insert cur (set rest)" by (rule es(4))
  have cl: "a_closedSet s' = cl'" by (rule es(6))
  have vi: "a_visited s' = a_visited s @ [cur]" by (rule es(7))
  have cellf: "cell (a_grid s') p = (if imp p then relaxed g e cur p
      else if p = cur then (cell g p)\<lparr>isVisited := True\<rparr> else cell g p)" for p
    by (rule es(8))
  have op: "set (a_openList s') = set rest \<union> {p. imp p}" by (rule es(9))
  have impD: "imp p \<Longrightarrow> p \<notin> cl' \<and> \<not> isWall (cell g p) \<and> in_grid g0 p \<and> adjacent cur p" for p
    by (simp add: imp_def improves_def)
  have keep: "\<not> imp p \<Longrightarrow> previousNode (cell (a_grid s') p) = previousNode (cell g p)
      \<and> distance (cell (a_grid s') p) = distance (cell g p)" for p
    by (simp add: cellf)
  have scl: "start \<in> cl'"
    using S co by (auto simp: cl'_def)
  have nis: "\<not> imp start" using impD scl by blast
  have 1: "a_openList s' = [start] \<and> a_closedSet s' = {} \<or> start \<in> a_closedSet s'"
    using scl by (simp add: cl)
  have 2: "previousNode (cell (a_grid s') start) = None"
    using keep [OF nis] ps by simp
  have 3: "distance (cell (a_grid s') start) = Fin 0"
    using keep [OF nis] ds by simp
  have 4: "\<forall>p \<in> set (a_openList s'). \<not> isWall (cell g0 p)"
  proof
    fix p assume "p \<in> set (a_openList s')"
    then consider "p \<in> set rest" | "imp p" by (auto simp: op)
    then show "\<not> isWall (cell g0 p)"
    proof cases
      case 1 then show ?thesis using N so by blast
    next
      case 2 then show ?thesis using impD [OF 2] same_static_isWall [OF st] by blast
    qed
  qed
  have 5: "\<forall>p. in_grid g0 p \<and> p \<notin> set (a_openList s') \<union> a_closedSet s' \<longrightarrow>
            previousNode (cell (a_grid s') p) = None"
  proof (intro allI impI)
    fix p assume p: "in_grid g0 p \<and> p \<notin> set (a_openList s') \<union> a_closedSet s'"
    then have "\<not> imp p" and "p \<notin> set (a_openList s) \<union> a_closedSet s"
      by (auto simp: op cl so cl'_def)
    then show "previousNode (cell (a_grid s') p) = None"
      using keep U p by simp
  qed
  have 6: "\<exists>q. previousNode (cell (a_grid s') p) = Some q \<and> q \<in> a_closedSet s' \<and> adjacent q p
              \<and> distance (cell (a_grid s') p) =
                  js_add (distance (cell (a_grid s') q)) (weight_or_1 (weight (cell g0 p)))
              \<and> (p \<in> a_closedSet s' \<longrightarrow> before (a_visited s') q p)"
    if p: "p \<in> set (a_openList s') \<union> a_closedSet s'" and pn: "p \<noteq> start" for p
  proof (cases "imp p")
    case True
    note d = impD [OF True]
    have "\<not> imp cur" using impD [of cur] by (auto simp: cl'_def)
    then have dc: "distance (cell (a_grid s') cur) = distance (cell g cur)"
      using keep by simp
    have "weight (cell g p) = weight (cell g0 p)"
      using same_static_weight [OF st] d by simp
    then have "distance (cell (a_grid s') p) =
        js_add (distance (cell g cur)) (weight_or_1 (weight (cell g0 p)))"
      using True by (simp add: cellf relaxed_def tentative_def)
    then have "distance (cell (a_grid s') p) =
        js_add (distance (cell (a_grid s') cur)) (weight_or_1 (weight (cell g0 p)))"
      by (simp only: dc)
    moreover have "previousNode (cell (a_grid s') p) = Some cur"
      using True by (simp add: cellf relaxed_def)
    moreover have "cur \<in> a_closedSet s'" "p \<notin> a_closedSet s'" "adjacent cur p"
      using d by (simp_all add: cl cl'_def)
    ultimately show ?thesis by blast
  next
    case False
    then have old: "p \<in> set (a_openList s) \<union> a_closedSet s"
      using p by (auto simp: op cl so cl'_def)
    then obtain q where q: "previousNode (cell g p) = Some q" "q \<in> a_closedSet s" "adjacent q p"
      "distance (cell g p) = js_add (distance (cell g q)) (weight_or_1 (weight (cell g0 p)))"
      "p \<in> a_closedSet s \<longrightarrow> before (a_visited s) q p"
      using C pn by blast
    have "\<not> imp q" using impD [of q] q(2) by (auto simp: cl'_def)
    then have dq: "distance (cell (a_grid s') q) = distance (cell g q)"
      using keep by simp
    have "before (a_visited s') q p" if "p \<in> a_closedSet s'"
    proof (cases "p = cur")
      case True
      then show ?thesis using q(2) cv by (simp add: vi before_snoc)
    next
      case False
      then have "p \<in> a_closedSet s" using that by (simp add: cl cl'_def)
      then show ?thesis using q(5) by (simp add: vi before_append)
    qed
    then show ?thesis
      using keep [OF False] q dq by (auto simp: cl cl'_def)
  qed
  show ?thesis
    unfolding astar_invP_def using 1 2 3 4 5 6 by blast
qed

lemma astar_invP_return:
  assumes inv: "astar_inv0 g0 e s" and invP: "astar_invP g0 start s"
    and ne: "a_openList s \<noteq> []" and b: "astar_body e s = Return s'"
  shows "astar_invP g0 start s'"
proof -
  define g where "g = a_grid s"
  have S: "a_openList s = [start] \<and> a_closedSet s = {} \<or> start \<in> a_closedSet s"
    and ps: "previousNode (cell g start) = None"
    and ds: "distance (cell g start) = Fin 0"
    and N: "\<forall>p \<in> set (a_openList s). \<not> isWall (cell g0 p)"
    and U: "\<forall>p. in_grid g0 p \<and> p \<notin> set (a_openList s) \<union> a_closedSet s \<longrightarrow>
            previousNode (cell g p) = None"
    and C: "\<forall>p \<in> set (a_openList s) \<union> a_closedSet s. p \<noteq> start \<longrightarrow>
           (\<exists>q. previousNode (cell g p) = Some q \<and> q \<in> a_closedSet s \<and> adjacent q p
              \<and> distance (cell g p) = js_add (distance (cell g q)) (weight_or_1 (weight (cell g0 p)))
              \<and> (p \<in> a_closedSet s \<longrightarrow> before (a_visited s) q p))"
    using invP unfolding astar_invP_def g_def by blast+
  have cv: "a_closedSet s = set (a_visited s)"
    using inv unfolding astar_inv0_def by blast
  note rs = astar_return_step [OF inv ne b, folded g_def]
  have keep: "previousNode (cell (a_grid s') p) = previousNode (cell g p)
      \<and> distance (cell (a_grid s') p) = distance (cell g p)" for p
    by (simp add: rs(7))
  have so: "set (a_openList s) = insert e (set (a_openList s'))" by (rule rs(4))
  have cl: "a_closedSet s' = insert e (a_closedSet s)" by (rule rs(5))
  have vi: "a_visited s' = a_visited s @ [e]" by (rule rs(6))
  have 1: "a_openList s' = [start] \<and> a_closedSet s' = {} \<or> start \<in> a_closedSet s'"
    using S rs(2) by (auto simp: cl)
  have 6: "\<exists>q. previousNode (cell (a_grid s') p) = Some q \<and> q \<in> a_closedSet s' \<and> adjacent q p
              \<and> distance (cell (a_grid s') p) =
                  js_add (distance (cell (a_grid s') q)) (weight_or_1 (weight (cell g0 p)))
              \<and> (p \<in> a_closedSet s' \<longrightarrow> before (a_visited s') q p)"
    if p: "p \<in> set (a_openList s') \<union> a_closedSet s'" and pn: "p \<noteq> start" for p
  proof -
    have old: "p \<in> set (a_openList s) \<union> a_closedSet s"
      using p by (auto simp: cl so)
    then obtain q where q: "previousNode (cell g p) = Some q" "q \<in> a_closedSet s" "adjacent q p"
      "distance (cell g p) = js_add (distance (cell g q)) (weight_or_1 (weight (cell g0 p)))"
      "p \<in> a_closedSet s \<longrightarrow> before (a_visited s) q p"
      using C pn by blast
    have "before (a_visited s') q p" if "p \<in> a_closedSet s'"
    proof (cases "p = e")
      case True
      then show ?thesis using q(2) cv by (simp add: vi before_snoc)
    next
      case False
      then have "p \<in> a_closedSet s" using that by (simp add: cl)
      then show ?thesis using q(5) by (simp add: vi before_append)
    qed
    then show ?thesis
      using keep q by (auto simp: cl)
  qed
  have 4: "\<forall>p \<in> set (a_openList s'). \<not> isWall (cell g0 p)"
    using N so by blast
  have 5: "\<forall>p. in_grid g0 p \<and> p \<notin> set (a_openList s') \<union> a_closedSet s' \<longrightarrow>
            previousNode (cell (a_grid s') p) = None"
    using U keep by (auto simp: so cl)
  show ?thesis
    unfolding astar_invP_def using 1 4 5 6 keep ps ds by auto
qed

section \<open>A* search: costs\<close>

lemma heuristic_Fin: "heuristic p e = Fin (hdist p e)"
  by (simp add: heuristic_def hdist_def)

lemma hdist_adjacent: "adjacent q p \<Longrightarrow> hdist q e \<le> hdist p e + 1"
proof -
  assume "adjacent q p"
  then have "\<bar>int (fst q) - int (fst e)\<bar> + \<bar>int (snd q) - int (snd e)\<bar>
      \<le> \<bar>int (fst p) - int (fst e)\<bar> + \<bar>int (snd p) - int (snd e)\<bar> + 1"
    unfolding adjacent_def by auto
  then have "(of_int (\<bar>int (fst q) - int (fst e)\<bar> + \<bar>int (snd q) - int (snd e)\<bar>) :: rat)
      \<le> of_int (\<bar>int (fst p) - int (fst e)\<bar> + \<bar>int (snd p) - int (snd e)\<bar> + 1)"
    by (simp only: of_int_le_iff)
  then show ?thesis by (simp add: hdist_def)
qed

lemma hdist_self [simp]: "hdist e e = 0"
  by (simp add: hdist_def)

lemma hdist_nonneg: "0 \<le> hdist p e"
  by (simp add: hdist_def)

lemma weights_ok_cell:
  assumes "weights_ok g" and "valid_grid g" and "passable g p"
  obtains w where "weight (cell g p) = Fin w" and "1 \<le> w"
proof -
  have "Fin 1 \<le> weight (cell g p) \<and> weight (cell g p) \<noteq> Infinity"
    using all_cells_cell [OF assms(1) [unfolded weights_ok_def] assms(2)] assms(3)
    by (simp add: passable_def)
  then show ?thesis using that by (cases "weight (cell g p)") auto
qed

lemma tentative_Fin:
  "distance (cell g c) = Fin dc \<Longrightarrow> weight (cell g p) = Fin w \<Longrightarrow> 1 \<le> w \<Longrightarrow>
     tentative g c p = Fin (dc + w)"
  by (simp add: tentative_def weight_or_1_def)

lemma astar_invO_init:
  assumes v: "valid_grid g0" and s: "in_grid g0 start"
    and r: "all_cells (\<lambda>n. distance n = Infinity) g0"
  shows "astar_invO g0 e (astar_init g0 start e)"
proof -
  have "distance (cell (a_grid (astar_init g0 start e)) p) = Infinity"
    if "passable g0 p" "p \<noteq> start" for p
    using all_cells_cell [OF r v] that by (simp add: astar_init_cell [OF v s] passable_def)
  moreover have "a_openList (astar_init g0 start e) = [start]"
    "a_closedSet (astar_init g0 start e) = {}" "a_visited (astar_init g0 start e) = []"
    by (simp_all add: astar_init_def)
  ultimately show ?thesis
    unfolding astar_invO_def by auto
qed

lemma astar_invO_step:
  assumes inv: "astar_inv0 g0 e s" and invP: "astar_invP g0 start s"
    and invO: "astar_invO g0 e s" and W: "weights_ok g0" and v0: "valid_grid g0"
    and ne: "a_openList s \<noteq> []" and b: "astar_body e s = Continue s'"
  shows "astar_invO g0 e s'"
proof -
  define cur where "cur = astar_current s"
  define g where "g = a_grid s"
  define rest where "rest = a_openList (astar_popped s)"
  define cl' where "cl' = insert cur (a_closedSet s)"
  define imp where "imp p \<longleftrightarrow> adjacent cur p \<and> in_grid g0 p \<and> improves g cl' cur p" for p
  define f where "f p = totalCost (cell g p)" for p
  define f' where "f' p = totalCost (cell (a_grid s') p)" for p
  define d where "d p = distance (cell g p)" for p
  define d' where "d' p = distance (cell (a_grid s') p)" for p
  have N: "\<forall>p \<in> set (a_openList s). \<not> isWall (cell g0 p)"
    using invP unfolding astar_invP_def by blast
  have U: "\<And>p. passable g0 p \<Longrightarrow> p \<notin> set (a_openList s) \<union> a_closedSet s \<Longrightarrow> d p = Infinity"
    and R: "\<And>q p. q \<in> a_closedSet s \<Longrightarrow> adjacent q p \<Longrightarrow> passable g0 p \<Longrightarrow>
          p \<in> set (a_openList s) \<union> a_closedSet s \<and> d p \<le> js_add (d q) (weight (cell g0 p))"
    and M: "\<And>q p. q \<in> a_closedSet s \<Longrightarrow> p \<in> set (a_openList s) \<Longrightarrow> f q \<le> f p"
    and So: "sorted (map f (a_visited s))"
    and E: "e \<notin> a_closedSet s"
    using invO unfolding astar_invO_def g_def d_def f_def by blast+
  have st: "same_static g0 g" and cv: "a_closedSet s = set (a_visited s)"
    and og: "\<forall>p \<in> set (a_openList s). in_grid g0 p"
    and fin: "\<And>p. p \<in> set (a_openList s) \<union> a_closedSet s \<Longrightarrow>
           \<exists>x. d p = Fin x \<and> f p = js_add (Fin x) (heuristic p e)"
    using inv unfolding astar_inv0_def g_def d_def f_def by blast+
  note es = astar_expand_step [OF inv ne N b, folded cur_def g_def rest_def, folded cl'_def,
      folded imp_def]
  have co: "cur \<in> set (a_openList s)" by (rule es(1))
  have ce: "cur \<noteq> e" by (rule es(2))
  have nc: "cur \<notin> a_closedSet s" by (rule es(3))
  have so: "set (a_openList s) = insert cur (set rest)" by (rule es(4))
  have cl: "a_closedSet s' = cl'" by (rule es(6))
  have vi: "a_visited s' = a_visited s @ [cur]" by (rule es(7))
  have cellf: "cell (a_grid s') p = (if imp p then relaxed g e cur p
      else if p = cur then (cell g p)\<lparr>isVisited := True\<rparr> else cell g p)" for p
    by (rule es(8))
  have op: "set (a_openList s') = set rest \<union> {p. imp p}" by (rule es(9))
  have pm: "\<And>p. p \<in> set (a_openList s) \<Longrightarrow> f cur \<le> f p"
    using es(10) by (simp add: f_def)
  have impD: "imp p \<Longrightarrow> p \<notin> cl' \<and> \<not> isWall (cell g p) \<and> in_grid g0 p \<and> adjacent cur p
      \<and> tentative g cur p < d p" for p
    by (simp add: imp_def improves_def d_def)
  have keep: "\<not> imp p \<Longrightarrow> d' p = d p \<and> f' p = f p" for p
    by (simp add: cellf d'_def d_def f'_def f_def)
  have nimp_cl: "p \<in> cl' \<Longrightarrow> \<not> imp p" for p
    using impD [of p] by blast
  have wall: "in_grid g0 p \<Longrightarrow> isWall (cell g p) = isWall (cell g0 p)" for p
    using same_static_isWall [OF st] by simp
  have wt: "in_grid g0 p \<Longrightarrow> weight (cell g p) = weight (cell g0 p)" for p
    using same_static_weight [OF st] by simp
  obtain dc where dc: "d cur = Fin dc" and fc: "f cur = Fin (dc + hdist cur e)"
    using fin [of cur] co by (auto simp: heuristic_Fin)
  have tent: "tentative g cur p = Fin (dc + w)"
    if "in_grid g0 p" "weight (cell g0 p) = Fin w" "1 \<le> w" for p w
    using tentative_Fin [of g cur dc p w] dc wt [OF that(1)] that by (simp add: d_def)
  have new: "d' p = Fin (dc + w) \<and> f' p = Fin (dc + w + hdist p e) \<and> Fin (dc + w) < d p"
    if "imp p" "weight (cell g0 p) = Fin w" "1 \<le> w" for p w
    using that impD [OF that(1)] tent [of p w]
    by (simp add: cellf d'_def f'_def relaxed_def heuristic_Fin)
  have 1: "d' p = Infinity" if "passable g0 p" "p \<notin> set (a_openList s') \<union> a_closedSet s'" for p
  proof -
    have "\<not> imp p" and "p \<notin> set (a_openList s) \<union> a_closedSet s"
      using that(2) by (auto simp: op cl so cl'_def)
    then show ?thesis using keep U that(1) by simp
  qed
  have 2: "p \<in> set (a_openList s') \<union> a_closedSet s' \<and> d' p \<le> js_add (d' q) (weight (cell g0 p))"
    if q: "q \<in> a_closedSet s'" and a: "adjacent q p" and pp: "passable g0 p" for q p
  proof -
    obtain w where w: "weight (cell g0 p) = Fin w" "1 \<le> w"
      using weights_ok_cell [OF W v0 pp] by blast
    have pg: "in_grid g0 p" and pw: "\<not> isWall (cell g p)"
      using pp wall by (simp_all add: passable_def)
    have dq: "d' q = d q" using keep nimp_cl q by (simp add: cl)
    have dcur: "d' cur = Fin dc" using keep [of cur] nimp_cl [of cur] dc by (simp add: cl'_def)
    show ?thesis
    proof (cases "q = cur")
      case True
      have pc: "p \<noteq> cur" using a True by (auto simp: adjacent_def)
      show ?thesis
      proof (cases "p \<in> a_closedSet s")
        case True
        then obtain x where x: "d p = Fin x" "f p = Fin (x + hdist p e)"
          using fin [of p] by (auto simp: heuristic_Fin)
        have "f p \<le> f cur" using M [OF True co] .
        then have "x + hdist p e \<le> dc + hdist cur e" by (simp add: x fc)
        moreover have "hdist cur e \<le> hdist p e + 1"
          using a \<open>q = cur\<close> by (simp add: hdist_adjacent)
        ultimately have "x \<le> dc + w" using w(2) by linarith
        moreover have "d' p = d p" using keep nimp_cl True by (simp add: cl'_def)
        ultimately show ?thesis
          using True \<open>q = cur\<close> by (simp add: dcur x w cl cl'_def)
      next
        case False
        then have pcl: "p \<notin> cl'" using pc by (simp add: cl'_def)
        show ?thesis
        proof (cases "imp p")
          case True
          then show ?thesis
            using new [OF True w] \<open>q = cur\<close> by (simp add: dcur w op)
        next
          case nimp: False
          then have "\<not> tentative g cur p < d p"
            using a pg pw pcl \<open>q = cur\<close> by (simp add: imp_def improves_def d_def)
          then have le: "d p \<le> Fin (dc + w)" using tent [OF pg w] by simp
          then have "d p \<noteq> Infinity" by auto
          then have "p \<in> set (a_openList s) \<union> a_closedSet s" using U [OF pp] by blast
          then have "p \<in> set rest" using False pc so by auto
          then show ?thesis
            using le keep [OF nimp] \<open>q = cur\<close> by (simp add: dcur w op)
        qed
      qed
    next
      case False
      then have qc: "q \<in> a_closedSet s" using q by (simp add: cl cl'_def)
      have old: "p \<in> set (a_openList s) \<union> a_closedSet s" "d p \<le> js_add (d q) (weight (cell g0 p))"
        using R [OF qc a pp] by auto
      have "d' p \<le> d p"
      proof (cases "imp p")
        case True
        then show ?thesis using new [OF True w] by (auto intro: order.strict_implies_order)
      next
        case False
        then show ?thesis using keep by simp
      qed
      then have "d' p \<le> js_add (d' q) (weight (cell g0 p))"
        using old(2) dq by simp
      moreover have "p \<in> set (a_openList s') \<union> a_closedSet s'"
        using old(1) by (auto simp: op cl so cl'_def)
      ultimately show ?thesis by blast
    qed
  qed
  have fcl: "f q \<le> f cur" if "q \<in> cl'" for q
    using that M [of q cur, OF _ co] by (auto simp: cl'_def)
  have 3: "f' q \<le> f' p" if q: "q \<in> a_closedSet s'" and p: "p \<in> set (a_openList s')" for q p
  proof -
    have fq: "f' q = f q" using keep nimp_cl q by (simp add: cl)
    have qcl: "q \<in> cl'" using q by (simp add: cl)
    show ?thesis
    proof (cases "imp p")
      case True
      have pp: "passable g0 p" using impD [OF True] wall [of p] by (auto simp: passable_def)
      obtain w where w: "weight (cell g0 p) = Fin w" "1 \<le> w"
        using weights_ok_cell [OF W v0 pp] by blast
      have "hdist cur e \<le> hdist p e + 1"
        using impD [OF True] by (simp add: hdist_adjacent)
      then have "f cur \<le> f' p"
        using new [OF True w] w(2) by (simp add: fc)
      then show ?thesis using fcl [OF qcl] fq by simp
    next
      case False
      then have pr: "p \<in> set rest" using p by (simp add: op)
      then have po: "p \<in> set (a_openList s)" using so by simp
      have "f q \<le> f p"
      proof (cases "q = cur")
        case True then show ?thesis using pm [OF po] by simp
      next
        case False
        then have "q \<in> a_closedSet s" using qcl by (simp add: cl'_def)
        then show ?thesis using M po by simp
      qed
      then show ?thesis using keep [OF False] fq by simp
    qed
  qed
  have 4: "sorted (map f' (a_visited s'))"
  proof -
    have "f' q = f q" if "q \<in> set (a_visited s)" for q
      using keep [of q] nimp_cl [of q] cv that by (simp add: cl'_def)
    then have mp: "map f' (a_visited s) = map f (a_visited s)"
      by (intro map_cong refl)
    have fc': "f' cur = f cur" using keep [of cur] nimp_cl [of cur] by (simp add: cl'_def)
    have le: "f q \<le> f cur" if "q \<in> set (a_visited s)" for q
      using fcl [of q] cv that by (simp add: cl'_def)
    show ?thesis
      using So le by (simp add: vi sorted_append mp fc')
  qed
  have 5: "e \<notin> a_closedSet s'" using E ce by (auto simp: cl cl'_def)
  show ?thesis
    unfolding astar_invO_def
    using 1 2 3 4 5 by (fold d'_def f'_def) blast
qed

lemma path_cost_Fin:
  assumes W: "weights_ok g" and v: "valid_grid g"
  shows "is_path g P \<Longrightarrow> \<exists>c. path_cost g P = Fin c"
proof (induction P rule: rev_induct)
  case Nil
  then show ?case by simp
next
  case (snoc y P)
  show ?case
  proof (cases "P = []")
    case True
    then show ?thesis by simp
  next
    case False
    then have "is_path g P" and py: "passable g y"
      using snoc.prems by (simp_all add: is_path_snoc)
    then obtain c where "path_cost g P = Fin c" using snoc.IH by blast
    moreover obtain w where "weight (cell g y) = Fin w" "1 \<le> w"
      using weights_ok_cell [OF W v py] by blast
    ultimately show ?thesis using False by (simp add: path_cost_snoc)
  qed
qed

lemma astar_path_bound:
  assumes inv: "astar_inv0 g0 e s" and invP: "astar_invP g0 start s"
    and invO: "astar_invO g0 e s" and W: "weights_ok g0" and v0: "valid_grid g0"
  shows "is_path g0 P \<Longrightarrow> hd P = start \<Longrightarrow>
    (\<exists>z \<in> set (a_openList s).
        totalCost (cell (a_grid s) z) \<le> js_add (path_cost g0 P) (heuristic (last P) e))
    \<or> (last P \<in> a_closedSet s \<and> distance (cell (a_grid s) (last P)) \<le> path_cost g0 P)"
proof (induction P rule: rev_induct)
  case Nil
  then show ?case by simp
next
  case (snoc y P)
  define g where "g = a_grid s"
  have S: "a_openList s = [start] \<and> a_closedSet s = {} \<or> start \<in> a_closedSet s"
    and ds: "distance (cell g start) = Fin 0"
    using invP unfolding astar_invP_def g_def by blast+
  have R: "\<And>q p. q \<in> a_closedSet s \<Longrightarrow> adjacent q p \<Longrightarrow> passable g0 p \<Longrightarrow>
          p \<in> set (a_openList s) \<union> a_closedSet s \<and>
          distance (cell g p) \<le> js_add (distance (cell g q)) (weight (cell g0 p))"
    using invO unfolding astar_invO_def g_def by blast
  have fin: "\<And>p. p \<in> set (a_openList s) \<union> a_closedSet s \<Longrightarrow>
           \<exists>x. distance (cell g p) = Fin x \<and> totalCost (cell g p) = Fin (x + hdist p e)"
    using inv unfolding astar_inv0_def g_def by (auto simp: heuristic_Fin)
  show ?case
  proof (cases "P = []")
    case True
    then have y: "y = start" using snoc.prems by simp
    show ?thesis
    proof (cases "start \<in> a_closedSet s")
      case True
      then show ?thesis using ds \<open>P = []\<close> y by (simp add: g_def)
    next
      case False
      then have o: "start \<in> set (a_openList s)" using S by auto
      then obtain x where "distance (cell g start) = Fin x"
        "totalCost (cell g start) = Fin (x + hdist start e)"
        using fin [of start] by blast
      then have "totalCost (cell g start) = Fin (hdist start e)" using ds by simp
      then show ?thesis
        using o \<open>P = []\<close> y by (auto simp: g_def heuristic_Fin intro!: bexI [of _ start])
    qed
  next
    case False
    then have pP: "is_path g0 P" and a: "adjacent (last P) y" and py: "passable g0 y"
      and hP: "hd P = start"
      using snoc.prems by (simp_all add: is_path_snoc)
    obtain c where c: "path_cost g0 P = Fin c" using path_cost_Fin [OF W v0 pP] by blast
    obtain w where w: "weight (cell g0 y) = Fin w" "1 \<le> w"
      using weights_ok_cell [OF W v0 py] by blast
    have cy: "path_cost g0 (P @ [y]) = Fin (c + w)"
      using False by (simp add: path_cost_snoc c w)
    have h: "hdist (last P) e \<le> hdist y e + 1" using a by (rule hdist_adjacent)
    from snoc.IH [OF pP hP] show ?thesis
    proof
      assume "\<exists>z \<in> set (a_openList s).
        totalCost (cell (a_grid s) z) \<le> js_add (path_cost g0 P) (heuristic (last P) e)"
      then obtain z where z: "z \<in> set (a_openList s)"
        "totalCost (cell g z) \<le> Fin (c + hdist (last P) e)"
        by (auto simp: g_def c heuristic_Fin)
      obtain x where "totalCost (cell g z) = Fin (x + hdist z e)"
        using fin [of z] z(1) by blast
      then have "totalCost (cell g z) \<le> Fin (c + w + hdist y e)"
        using z(2) h w(2) by simp
      then show ?thesis using z(1) by (auto simp: cy heuristic_Fin g_def)
    next
      assume B: "last P \<in> a_closedSet s \<and> distance (cell (a_grid s) (last P)) \<le> path_cost g0 P"
      then obtain x where x: "distance (cell g (last P)) = Fin x" "x \<le> c"
        using fin [of "last P"] by (auto simp: g_def c)
      have yo: "y \<in> set (a_openList s) \<union> a_closedSet s"
        and "distance (cell g y) \<le> js_add (distance (cell g (last P))) (weight (cell g0 y))"
        using R [OF _ a py] B by auto
      moreover obtain dy where dy: "distance (cell g y) = Fin dy"
        "totalCost (cell g y) = Fin (dy + hdist y e)"
        using fin [OF yo] by blast
      ultimately have le: "dy \<le> c + w" using x by (simp add: w)
      show ?thesis
      proof (cases "y \<in> a_closedSet s")
        case True
        then show ?thesis using le dy by (simp add: cy g_def)
      next
        case False
        then have "y \<in> set (a_openList s)" using yo by simp
        moreover have "totalCost (cell g y) \<le> Fin (c + w + hdist y e)"
          using le dy by simp
        ultimately show ?thesis by (auto simp: cy heuristic_Fin g_def)
      qed
    qed
  qed
qed

lemma astar_search_optimal:
  assumes v: "valid_grid g" and ps: "passable g start" and W: "weights_ok g"
    and rd: "all_cells (\<lambda>n. distance n = Infinity) g"
    and rp: "all_cells (\<lambda>n. previousNode n = None) g"
    and path: "path_between g start e P0"
  shows "\<exists>s'. astar_while e (astar_init g start e) = Some s' \<and> astar_inv0 g e s' \<and>
           astar_invP g start s' \<and> a_visited s' \<noteq> [] \<and> last (a_visited s') = e \<and>
           (\<forall>P. path_between g start e P \<longrightarrow> distance (cell (a_grid s') e) \<le> path_cost g P)"
proof (rule astar_while_rule [where R = "astar_rel g"
      and I = "\<lambda>s. astar_inv0 g e s \<and> astar_invP g start s \<and> astar_invO g e s"])
  show "wf (astar_rel g)" by (rule wf_astar_rel)
  have s: "in_grid g start" and nw: "\<not> isWall (cell g start)"
    using ps by (simp_all add: passable_def)
  show "astar_inv0 g e (astar_init g start e) \<and> astar_invP g start (astar_init g start e)
      \<and> astar_invO g e (astar_init g start e)"
    using astar_inv0_init [OF v s] astar_invP_init [OF v s nw rp] astar_invO_init [OF v s rd]
    by blast
next
  fix s s'
  assume I: "astar_inv0 g e s \<and> astar_invP g start s \<and> astar_invO g e s"
    and ne: "a_openList s \<noteq> []" and b: "astar_body e s = Continue s'"
  then show "(astar_inv0 g e s' \<and> astar_invP g start s' \<and> astar_invO g e s') \<and> (s', s) \<in> astar_rel g"
    using astar_inv0_step [of g e s s'] astar_invP_step [of g e s start s']
      astar_invO_step [of g e s start s', OF _ _ _ W v]
    by blast
next
  fix s s'
  assume I: "astar_inv0 g e s \<and> astar_invP g start s \<and> astar_invO g e s"
    and ne: "a_openList s \<noteq> []" and b: "astar_body e s = Return s'"
  then have inv: "astar_inv0 g e s" and invP: "astar_invP g start s" and invO: "astar_invO g e s"
    by blast+
  note rs = astar_return_step [OF inv ne b]
  have E: "e \<notin> a_closedSet s" by (rule rs(3))
  have "\<exists>d. distance (cell (a_grid s) e) = Fin d \<and>
      totalCost (cell (a_grid s) e) = js_add (Fin d) (heuristic e e)"
    using inv rs(2) unfolding astar_inv0_def by blast
  then obtain x where x: "distance (cell (a_grid s) e) = Fin x"
    "totalCost (cell (a_grid s) e) = Fin x"
    by (auto simp: heuristic_Fin)
  have "distance (cell (a_grid s') e) \<le> path_cost g P" if P: "path_between g start e P" for P
  proof -
    have "is_path g P" "hd P = start" "last P = e"
      using P by (simp_all add: path_between_def)
    then consider z where "z \<in> set (a_openList s)"
        "totalCost (cell (a_grid s) z) \<le> js_add (path_cost g P) (heuristic e e)"
      | "e \<in> a_closedSet s"
      using astar_path_bound [OF inv invP invO W v, of P] by auto
    then show ?thesis
    proof cases
      case 1
      have "totalCost (cell (a_grid s) e) \<le> totalCost (cell (a_grid s) z)"
        using rs(8) 1(1) by blast
      then have "Fin x \<le> path_cost g P"
        using 1(2) x by (simp add: heuristic_Fin)
      then show ?thesis using x by (simp add: rs(7))
    next
      case 2
      then show ?thesis using E by simp
    qed
  qed
  then show "astar_inv0 g e s' \<and> astar_invP g start s' \<and> a_visited s' \<noteq> [] \<and>
      last (a_visited s') = e \<and>
      (\<forall>P. path_between g start e P \<longrightarrow> distance (cell (a_grid s') e) \<le> path_cost g P)"
    using astar_inv0_return(4) [OF inv ne b] astar_invP_return [OF inv invP ne b]
    by (simp add: rs(6))
next
  fix s
  assume I: "astar_inv0 g e s \<and> astar_invP g start s \<and> astar_invO g e s"
    and em: "a_openList s = []"
  then have inv: "astar_inv0 g e s" and invP: "astar_invP g start s" and invO: "astar_invO g e s"
    by blast+
  have "is_path g P0" "hd P0 = start" "last P0 = e"
    using path by (simp_all add: path_between_def)
  then have "e \<in> a_closedSet s"
    using astar_path_bound [OF inv invP invO W v, of P0] em by auto
  moreover have "e \<notin> a_closedSet s"
    using invO unfolding astar_invO_def by blast
  ultimately show "astar_inv0 g e s \<and> astar_invP g start s \<and> a_visited s \<noteq> [] \<and>
      last (a_visited s) = e \<and>
      (\<forall>P. path_between g start e P \<longrightarrow> distance (cell (a_grid s) e) \<le> path_cost g P)"
    by blast
qed

lemma astar_walk:
  assumes inv: "astar_inv0 g0 e s" and invP: "astar_invP g0 start s"
    and p: "p \<in> a_closedSet s"
  shows "\<exists>xs. (\<forall>acc. path_while (a_grid s) (Some p) acc = Some (xs @ acc)) \<and> is_path g0 xs \<and>
           hd xs = start \<and> last xs = p \<and> set xs \<subseteq> a_closedSet s \<and>
           (\<forall>i. Suc i < length xs \<longrightarrow>
              previousNode (cell (a_grid s) (xs ! Suc i)) = Some (xs ! i))"
proof -
  have cv: "a_closedSet s = set (a_visited s)" and dv: "distinct (a_visited s)"
    and cg: "\<forall>p \<in> a_closedSet s. in_grid g0 p \<and> \<not> isWall (cell g0 p)"
    using inv unfolding astar_inv0_def by blast+
  have s0: "previousNode (cell (a_grid s) start) = None"
    and C: "\<forall>p \<in> set (a_openList s) \<union> a_closedSet s. p \<noteq> start \<longrightarrow>
           (\<exists>q. previousNode (cell (a_grid s) p) = Some q \<and> q \<in> a_closedSet s \<and> adjacent q p
              \<and> distance (cell (a_grid s) p) =
                    js_add (distance (cell (a_grid s) q)) (weight_or_1 (weight (cell g0 p)))
              \<and> (p \<in> a_closedSet s \<longrightarrow> before (a_visited s) q p))"
    using invP unfolding astar_invP_def by blast+
  have "\<exists>xs. (\<forall>acc. path_while (a_grid s) (Some p) acc = Some (xs @ acc)) \<and> is_path g0 xs \<and>
           hd xs = start \<and> last xs = p \<and> set xs \<subseteq> set (a_visited s) \<and>
           (\<forall>i. Suc i < length xs \<longrightarrow>
              previousNode (cell (a_grid s) (xs ! Suc i)) = Some (xs ! i))"
  proof (rule walk_along [OF dv s0])
    fix r assume r: "r \<in> set (a_visited s)" "r \<noteq> start"
    then have "r \<in> set (a_openList s) \<union> a_closedSet s" "r \<in> a_closedSet s"
      using cv by simp_all
    then show "\<exists>q. previousNode (cell (a_grid s) r) = Some q \<and> before (a_visited s) q r \<and> adjacent q r"
      using C r(2) by blast
  next
    fix r assume "r \<in> set (a_visited s)"
    then show "passable g0 r" using cg cv by (simp add: passable_def)
  next
    show "p \<in> set (a_visited s)" using p cv by simp
  qed
  then show ?thesis by (simp add: cv)
qed

lemma astar_chain_cost:
  assumes inv: "astar_inv0 g0 e s" and invP: "astar_invP g0 start s"
    and W: "weights_ok g0" and v0: "valid_grid g0"
  shows "is_path g0 xs \<Longrightarrow> hd xs = start \<Longrightarrow> set xs \<subseteq> a_closedSet s \<Longrightarrow>
    (\<forall>i. Suc i < length xs \<longrightarrow> previousNode (cell (a_grid s) (xs ! Suc i)) = Some (xs ! i)) \<Longrightarrow>
    path_cost g0 xs = distance (cell (a_grid s) (last xs))"
proof (induction xs rule: rev_induct)
  case Nil
  then show ?case by simp
next
  case (snoc y xs)
  have s0: "previousNode (cell (a_grid s) start) = None"
    and ds: "distance (cell (a_grid s) start) = Fin 0"
    and C: "\<forall>p \<in> set (a_openList s) \<union> a_closedSet s. p \<noteq> start \<longrightarrow>
           (\<exists>q. previousNode (cell (a_grid s) p) = Some q \<and> q \<in> a_closedSet s \<and> adjacent q p
              \<and> distance (cell (a_grid s) p) =
                    js_add (distance (cell (a_grid s) q)) (weight_or_1 (weight (cell g0 p)))
              \<and> (p \<in> a_closedSet s \<longrightarrow> before (a_visited s) q p))"
    using invP unfolding astar_invP_def by blast+
  show ?case
  proof (cases "xs = []")
    case True
    then show ?thesis using snoc.prems ds by simp
  next
    case False
    then have px: "is_path g0 xs" and py: "passable g0 y" and hx: "hd xs = start"
      and sx: "set xs \<subseteq> a_closedSet s" and yc: "y \<in> a_closedSet s"
      using snoc.prems by (simp_all add: is_path_snoc)
    have lx: "\<forall>i. Suc i < length xs \<longrightarrow> previousNode (cell (a_grid s) (xs ! Suc i)) = Some (xs ! i)"
    proof (intro allI impI)
      fix i assume i: "Suc i < length xs"
      then have "previousNode (cell (a_grid s) ((xs @ [y]) ! Suc i)) = Some ((xs @ [y]) ! i)"
        using snoc.prems(4) by simp
      then show "previousNode (cell (a_grid s) (xs ! Suc i)) = Some (xs ! i)"
        using i by (simp add: nth_append)
    qed
    have ih: "path_cost g0 xs = distance (cell (a_grid s) (last xs))"
      using snoc.IH [OF px hx sx lx] .
    obtain k where k: "length xs = Suc k" using False by (cases xs) auto
    have "previousNode (cell (a_grid s) ((xs @ [y]) ! Suc k)) = Some ((xs @ [y]) ! k)"
      using snoc.prems(4) k by simp
    then have link: "previousNode (cell (a_grid s) y) = Some (last xs)"
      using k False by (simp add: nth_append last_conv_nth)
    then have "y \<noteq> start" using s0 by auto
    then have "distance (cell (a_grid s) y) =
        js_add (distance (cell (a_grid s) (last xs))) (weight_or_1 (weight (cell g0 y)))"
      using C yc link by auto
    moreover obtain w where "weight (cell g0 y) = Fin w" "1 \<le> w"
      using weights_ok_cell [OF W v0 py] by blast
    ultimately show ?thesis
      using False ih by (simp add: path_cost_snoc weight_or_1_def)
  qed
qed

section \<open>A* search: the minimum-cost path and the order of selection\<close>

lemma all_cells_conj:
  "all_cells (\<lambda>n. P n \<and> Q n) g \<longleftrightarrow> all_cells P g \<and> all_cells Q g"
  unfolding all_cells_def by blast

lemma is_path_hd_passable: "is_path g ps \<Longrightarrow> passable g (hd ps)"
  by (induction g ps rule: is_path.induct) auto

lemma astar_min_path:
  assumes "valid_grid g" and "weights_ok g"
    and "all_cells (\<lambda>n. distance n = Infinity \<and> previousNode n = None) g"
    and "\<exists>P. path_between g startNode endNode P"
  shows "\<exists>s' xs. astar_while endNode (astar_init g startNode endNode) = Some s'
    \<and> a_visited s' \<noteq> [] \<and> last (a_visited s') = endNode
    \<and> (\<forall>acc. path_while (a_grid s') (Some endNode) acc = Some (xs @ acc))
    \<and> path_between g startNode endNode xs
    \<and> path_cost g xs = distance (cell (a_grid s') endNode)
    \<and> (\<forall>P. path_between g startNode endNode P \<longrightarrow>
          distance (cell (a_grid s') endNode) \<le> path_cost g P)"
proof -
  obtain P0 where P0: "path_between g startNode endNode P0" using assms(4) by blast
  then have ps: "passable g startNode"
    using is_path_hd_passable [of g P0] by (auto simp: path_between_def)
  have rd: "all_cells (\<lambda>n. distance n = Infinity) g" and rp: "all_cells (\<lambda>n. previousNode n = None) g"
    using assms(3) by (simp_all add: all_cells_conj)
  obtain s' where w: "astar_while endNode (astar_init g startNode endNode) = Some s'"
    and inv: "astar_inv0 g endNode s'" and invP: "astar_invP g startNode s'"
    and vne: "a_visited s' \<noteq> []" and le: "last (a_visited s') = endNode"
    and opt: "\<forall>P. path_between g startNode endNode P \<longrightarrow> distance (cell (a_grid s') endNode) \<le> path_cost g P"
    using astar_search_optimal [OF assms(1) ps assms(2) rd rp P0] by blast
  have "endNode \<in> set (a_visited s')" using vne le last_in_set by metis
  then have ec: "endNode \<in> a_closedSet s'" using inv unfolding astar_inv0_def by simp
  obtain xs where xs: "\<forall>acc. path_while (a_grid s') (Some endNode) acc = Some (xs @ acc)"
    "is_path g xs" "hd xs = startNode" "last xs = endNode" "set xs \<subseteq> a_closedSet s'"
    "\<forall>i. Suc i < length xs \<longrightarrow> previousNode (cell (a_grid s') (xs ! Suc i)) = Some (xs ! i)"
    using astar_walk [OF inv invP ec] by blast
  have cost: "path_cost g xs = distance (cell (a_grid s') endNode)"
    using astar_chain_cost [OF inv invP assms(2,1) xs(2,3,5,6)] xs(4) by simp
  have 3: "path_between g startNode endNode xs"
    using xs(2,3,4) by (simp add: path_between_def)
  show ?thesis
    using w vne le xs(1) 3 cost opt by (intro exI [of _ s'] exI [of _ xs]) simp
qed

lemma example_grid_valid: "valid_grid example_grid"
  by (simp add: example_grid_def valid_grid_def)

lemma example_grid_weights: "weights_ok example_grid"
  by (simp add: example_grid_def weights_ok_def all_cells_def createNode_def)

lemma example_grid_reset:
  "all_cells (\<lambda>n. distance n = Infinity \<and> previousNode n = None) example_grid"
  by (simp add: example_grid_def all_cells_def createNode_def)

lemma example_grid_path: "path_between example_grid (0, 0) (0, 2) [(0, 0), (0, 1), (0, 2)]"
  by (simp add: path_between_def passable_def in_grid_def adjacent_def cell_def
      example_grid_def createNode_def)

lemma astar_reaches_invs:
  assumes W: "weights_ok g" and v: "valid_grid g"
  shows "astar_reaches e s t \<Longrightarrow>
    astar_inv0 g e s \<and> astar_invP g start s \<and> astar_invO g e s \<Longrightarrow>
    astar_inv0 g e t \<and> astar_invP g start t \<and> astar_invO g e t"
proof (induction rule: astar_reaches.induct)
  case reaches_start
  then show ?case by simp
next
  case (reaches_step t u)
  then have "astar_inv0 g e t" "astar_invP g start t" "astar_invO g e t" by blast+
  then show ?case
    using astar_inv0_step(1) [of g e t u] astar_invP_step [of g e t start u]
      astar_invO_step [of g e t start u, OF _ _ _ W v] reaches_step.hyps(2,3)
    by blast
qed

lemma astar_step_frozen:
  assumes inv: "astar_inv0 g e s" and invP: "astar_invP g start s"
    and ne: "a_openList s \<noteq> []" and b: "astar_body e s = Continue s'"
  shows "a_closedSet s' = insert (astar_current s) (a_closedSet s)"
    and "\<And>p. p \<in> a_closedSet s' \<Longrightarrow>
           totalCost (cell (a_grid s') p) = totalCost (cell (a_grid s) p)"
proof -
  have N: "\<forall>p \<in> set (a_openList s). \<not> isWall (cell g p)"
    using invP unfolding astar_invP_def by blast
  note es = astar_expand_step [OF inv ne N b]
  show c: "a_closedSet s' = insert (astar_current s) (a_closedSet s)" by (rule es(6))
  show "totalCost (cell (a_grid s') p) = totalCost (cell (a_grid s) p)"
    if "p \<in> a_closedSet s'" for p
    using that unfolding c es(8) by (auto simp: improves_def)
qed

lemma astar_reaches_frozen:
  assumes W: "weights_ok g" and v: "valid_grid g"
  shows "astar_reaches e s t \<Longrightarrow>
    astar_inv0 g e s \<and> astar_invP g start s \<and> astar_invO g e s \<Longrightarrow>
    a_closedSet s \<subseteq> a_closedSet t \<and>
    (\<forall>p \<in> a_closedSet s. totalCost (cell (a_grid t) p) = totalCost (cell (a_grid s) p))"
proof (induction rule: astar_reaches.induct)
  case reaches_start
  then show ?case by simp
next
  case (reaches_step t u)
  then have I: "astar_inv0 g e t" "astar_invP g start t"
    using astar_reaches_invs [OF W v reaches_step.hyps(1), of start] by blast+
  note f = astar_step_frozen [OF I reaches_step.hyps(2,3)]
  have ih: "a_closedSet s \<subseteq> a_closedSet t"
    "\<forall>p \<in> a_closedSet s. totalCost (cell (a_grid t) p) = totalCost (cell (a_grid s) p)"
    using reaches_step by blast+
  have "a_closedSet s \<subseteq> a_closedSet u" using ih(1) f(1) by auto
  moreover have "totalCost (cell (a_grid u) p) = totalCost (cell (a_grid s) p)"
    if "p \<in> a_closedSet s" for p
  proof -
    have "p \<in> a_closedSet u" using that ih(1) f(1) by auto
    then show ?thesis using f(2) [of p] ih(2) that by simp
  qed
  ultimately show ?case by blast
qed

lemma astar_wall_start_reaches:
  assumes v: "valid_grid g" and s: "in_grid g start" and w: "isWall (cell g start)"
  shows "astar_reaches e (astar_init g start e) t \<Longrightarrow>
    t = astar_init g start e \<or> a_openList t = []"
proof (induction rule: astar_reaches.induct)
  case reaches_start
  then show ?case by simp
next
  case (reaches_step t u)
  then have t: "t = astar_init g start e" by auto
  have "astar_current t = start"
    by (simp add: t astar_current_def astar_init_def)
  moreover have "isWall (cell (a_grid t) start)"
    using w by (simp add: t astar_init_cell [OF v s])
  ultimately have "u = astar_popped t"
    using reaches_step.hyps(3) by (simp add: astar_body_eq)
  then show ?case by (simp add: t astar_popped_def astar_init_def)
qed

lemma astar_wall_start_no_selection:
  assumes v: "valid_grid g" and s: "in_grid g start" and w: "isWall (cell g start)"
    and r: "astar_reaches e (astar_init g start e) t"
  shows "\<not> astar_selects t"
proof -
  consider "t = astar_init g start e" | "a_openList t = []"
    using astar_wall_start_reaches [OF v s w r] by blast
  then show ?thesis
  proof cases
    case 1
    have "astar_current t = start"
      by (simp add: 1 astar_current_def astar_init_def)
    moreover have "isWall (cell (a_grid t) start)"
      using w by (simp add: 1 astar_init_cell [OF v s])
    ultimately show ?thesis by (simp add: astar_selects_def)
  next
    case 2
    then show ?thesis by (simp add: astar_selects_def)
  qed
qed

lemma astar_selection_monotone:
  assumes "valid_grid g" and "weights_ok g"
    and "all_cells (\<lambda>n. distance n = Infinity \<and> previousNode n = None) g"
    and "in_grid g startNode"
    and "astar_reaches endNode (astar_init g startNode endNode) t" and "astar_selects t"
    and "astar_body endNode t = Continue t1"
    and "astar_reaches endNode t1 t'" and "astar_selects t'"
  shows "totalCost (cell (a_grid t) (astar_current t))
      \<le> totalCost (cell (a_grid t') (astar_current t'))"
proof -
  have nw: "\<not> isWall (cell g startNode)"
    using astar_wall_start_no_selection [OF assms(1,4) _ assms(5)] assms(6) by blast
  have rd: "all_cells (\<lambda>n. distance n = Infinity) g" and rp: "all_cells (\<lambda>n. previousNode n = None) g"
    using assms(3) by (simp_all add: all_cells_conj)
  have I0: "astar_inv0 g endNode (astar_init g startNode endNode)
      \<and> astar_invP g startNode (astar_init g startNode endNode)
      \<and> astar_invO g endNode (astar_init g startNode endNode)"
    using astar_inv0_init [OF assms(1,4)] astar_invP_init [OF assms(1,4) nw rp]
      astar_invO_init [OF assms(1,4) rd] by blast
  have It: "astar_inv0 g endNode t \<and> astar_invP g startNode t \<and> astar_invO g endNode t"
    using astar_reaches_invs [OF assms(2,1,5) I0] .
  have ne: "a_openList t \<noteq> []" using assms(6) by (simp add: astar_selects_def)
  have It1: "astar_inv0 g endNode t1 \<and> astar_invP g startNode t1 \<and> astar_invO g endNode t1"
    using astar_reaches_invs [OF assms(2,1) astar_reaches.reaches_step
        [OF astar_reaches.reaches_start ne assms(7)] It] .
  have It': "astar_inv0 g endNode t' \<and> astar_invP g startNode t' \<and> astar_invO g endNode t'"
    using astar_reaches_invs [OF assms(2,1,8) It1] .
  have f1: "astar_current t \<in> a_closedSet t1"
    "totalCost (cell (a_grid t1) (astar_current t)) = totalCost (cell (a_grid t) (astar_current t))"
    using astar_step_frozen [OF _ _ ne assms(7), of g startNode] It by auto
  have f2: "astar_current t \<in> a_closedSet t'"
    "totalCost (cell (a_grid t') (astar_current t)) = totalCost (cell (a_grid t1) (astar_current t))"
    using astar_reaches_frozen [OF assms(2,1,8) It1] f1(1) by auto
  have "a_openList t' \<noteq> []" using assms(9) by (simp add: astar_selects_def)
  then have "astar_current t' \<in> set (a_openList t')" by (rule astar_pop_facts)
  moreover have "\<forall>q \<in> a_closedSet t'. \<forall>p \<in> set (a_openList t').
          totalCost (cell (a_grid t') q) \<le> totalCost (cell (a_grid t') p)"
    using It' unfolding astar_invO_def by blast
  ultimately have "totalCost (cell (a_grid t') (astar_current t))
      \<le> totalCost (cell (a_grid t') (astar_current t'))"
    using f2(1) by blast
  then show ?thesis using f1(2) f2(2) by simp
qed

section \<open>Concrete runs\<close>

lemma example_init_selects: "astar_selects (astar_init example_grid (0, 0) (0, 2))"
  by (simp add: astar_selects_def astar_current_def astar_init_def example_grid_def
      createNode_def update_cell_def cell_def)

lemma example_init_body:
  "astar_body (0, 2) (astar_init example_grid (0, 0) (0, 2)) =
     Continue (astar_expanded (0, 2) (astar_init example_grid (0, 0) (0, 2)))"
  by (simp add: astar_body_eq astar_current_def astar_init_def example_grid_def
      createNode_def update_cell_def cell_def)

lemma example_expanded_selects:
  "astar_selects (astar_expanded (0, 2) (astar_init example_grid (0, 0) (0, 2)))"
  by (simp add: astar_selects_def astar_expanded_def astar_closed_def astar_popped_def
      astar_relax_def astar_current_def astar_init_def example_grid_def createNode_def
      update_cell_def cell_def getNeighbors_def heuristic_def weight_or_1_def Let_def)


section \<open>Breadth-first search: the queue, the visitation order and the predecessor links\<close>

lemma bfs_body_eq:
  "bfs_body e s =
     (if isWall (cell (b_grid s) (bfs_current s)) then Continue (s\<lparr>b_queue := tl (b_queue s)\<rparr>)
      else if bfs_current s = e then Return (bfs_dequeued s)
      else Continue (bfs_expanded s))"
  by (simp add: bfs_body_def bfs_current_def bfs_new_def bfs_dequeued_def bfs_expanded_def Let_def)

lemma fold_bfs_visit:
  assumes "valid_grid (b_grid s)" and "\<forall>n \<in> set ns. in_grid (b_grid s) n" and "distinct ns"
  shows "b_visited (fold (bfs_visit c) ns s) = b_visited s
    \<and> b_queue (fold (bfs_visit c) ns s) = b_queue s @ ns
    \<and> valid_grid (b_grid (fold (bfs_visit c) ns s))
    \<and> length (b_grid (fold (bfs_visit c) ns s)) = length (b_grid s)
    \<and> length (b_grid (fold (bfs_visit c) ns s) ! 0) = length (b_grid s ! 0)
    \<and> (\<forall>p. cell (b_grid (fold (bfs_visit c) ns s)) p =
          (if p \<in> set ns then (cell (b_grid s) p)\<lparr>isVisited := True, previousNode := Some c\<rparr>
           else cell (b_grid s) p))"
  using assms
proof (induction ns rule: rev_induct)
  case Nil
  then show ?case by simp
next
  case (snoc n ns)
  define t where "t = fold (bfs_visit c) ns s"
  have ih: "b_visited t = b_visited s" "b_queue t = b_queue s @ ns" "valid_grid (b_grid t)"
    "length (b_grid t) = length (b_grid s)" "length (b_grid t ! 0) = length (b_grid s ! 0)"
    "\<And>p. cell (b_grid t) p =
          (if p \<in> set ns then (cell (b_grid s) p)\<lparr>isVisited := True, previousNode := Some c\<rparr>
           else cell (b_grid s) p)"
    using snoc unfolding t_def by auto
  have n: "n \<notin> set ns" "in_grid (b_grid s) n" using snoc.prems by auto
  have ign: "in_grid (b_grid t) n" using n(2) ih(4,5) by (simp add: in_grid_def)
  have f: "fold (bfs_visit c) (ns @ [n]) s = bfs_visit c n t" by (simp add: t_def)
  show ?case
    unfolding f using ih n(1)
    by (auto simp: bfs_visit_def cell_update_cell [OF ih(3) ign])
qed

lemma bfs_new_iff:
  assumes "in_grid (b_grid s) (bfs_current s)"
  shows "p \<in> set (bfs_new s) \<longleftrightarrow>
     adjacent (bfs_current s) p \<and> in_grid (b_grid s) p \<and>
     \<not> isVisited (cell (b_grid s) p) \<and> \<not> isWall (cell (b_grid s) p)"
  using getNeighbors_adjacent [OF assms, of p]
  by (auto simp: bfs_new_def getUnvisitedNeighbors_filter)

lemma bfs_new_distinct: "distinct (bfs_new s)"
  by (simp add: bfs_new_def getUnvisitedNeighbors_filter getNeighbors_distinct)

lemma bfs_expanded_facts:
  assumes v: "valid_grid (b_grid s)" and c: "in_grid (b_grid s) (bfs_current s)"
  shows "b_visited (bfs_expanded s) = b_visited s @ [bfs_current s]"
    and "b_queue (bfs_expanded s) = tl (b_queue s) @ bfs_new s"
    and "valid_grid (b_grid (bfs_expanded s))"
    and "length (b_grid (bfs_expanded s)) = length (b_grid s)"
    and "length (b_grid (bfs_expanded s) ! 0) = length (b_grid s ! 0)"
    and "\<And>p. cell (b_grid (bfs_expanded s)) p =
          (if p \<in> set (bfs_new s)
           then (cell (b_grid s) p)\<lparr>isVisited := True, previousNode := Some (bfs_current s)\<rparr>
           else cell (b_grid s) p)"
proof -
  have g: "b_grid (bfs_dequeued s) = b_grid s" by (simp add: bfs_dequeued_def)
  have ns: "\<forall>n \<in> set (bfs_new s). in_grid (b_grid (bfs_dequeued s)) n"
    using bfs_new_iff [OF c] by (simp add: g)
  note fl0 = fold_bfs_visit [of "bfs_dequeued s" "bfs_new s" "bfs_current s",
      unfolded g, OF v ns [unfolded g] bfs_new_distinct, folded bfs_expanded_def]
  show "b_visited (bfs_expanded s) = b_visited s @ [bfs_current s]"
    using fl0 by (simp add: bfs_dequeued_def)
  show "b_queue (bfs_expanded s) = tl (b_queue s) @ bfs_new s"
    using fl0 by (simp add: bfs_dequeued_def)
  show "valid_grid (b_grid (bfs_expanded s))" using fl0 by blast
  show "length (b_grid (bfs_expanded s)) = length (b_grid s)" using fl0 by blast
  show "length (b_grid (bfs_expanded s) ! 0) = length (b_grid s ! 0)" using fl0 by blast
  show "cell (b_grid (bfs_expanded s)) p =
          (if p \<in> set (bfs_new s)
           then (cell (b_grid s) p)\<lparr>isVisited := True, previousNode := Some (bfs_current s)\<rparr>
           else cell (b_grid s) p)" for p
    using fl0 by blast
qed

lemma bfs_inv0_init:
  assumes "valid_grid g0" and "in_grid g0 start"
  shows "bfs_inv0 g0 (bfs_init g0 start)"
proof -
  have "same_static g0 (b_grid (bfs_init g0 start))"
    unfolding bfs_init_def using assms
    by (simp add: same_static_update same_static_refl)
  moreover have "isVisited (cell (b_grid (bfs_init g0 start)) start)"
    unfolding bfs_init_def using assms by (simp add: cell_update_cell)
  ultimately show ?thesis
    using assms unfolding bfs_inv0_def by (simp add: bfs_init_def)
qed

lemma bfs_inv0_step:
  assumes inv: "bfs_inv0 g0 s" and ne: "b_queue s \<noteq> []"
    and b: "bfs_body e s = Continue s'"
  shows "bfs_inv0 g0 s'" and "(s', s) \<in> bfs_rel g0"
proof -
  define cur where "cur = bfs_current s"
  define rest where "rest = tl (b_queue s)"
  define g where "g = b_grid s"
  have q: "b_queue s = cur # rest"
    using ne by (simp add: cur_def rest_def bfs_current_def)
  have st: "same_static g0 g" and qg: "\<forall>p \<in> set (b_queue s). in_grid g0 p"
    and vg: "\<forall>p \<in> set (b_visited s). in_grid g0 p \<and> \<not> isWall (cell g0 p)"
    and di: "distinct (b_visited s @ b_queue s)"
    and mk: "\<forall>p \<in> set (b_queue s) \<union> set (b_visited s). isVisited (cell g p)"
    using inv unfolding bfs_inv0_def g_def by blast+
  have v: "valid_grid g" using st by (rule same_static_valid)
  have cg0: "in_grid g0 cur" using qg q by simp
  have cgs: "in_grid g cur" using cg0 st by (simp add: same_static_in_grid)
  show "bfs_inv0 g0 s'" and "(s', s) \<in> bfs_rel g0"
  proof (atomize (full), cases "isWall (cell g cur)")
    case True
    then have s': "s' = s\<lparr>b_queue := rest\<rparr>"
      using b by (simp add: bfs_body_eq cur_def g_def rest_def)
    have "bfs_inv0 g0 s'"
      unfolding bfs_inv0_def s' using inv q by (auto simp: bfs_inv0_def)
    moreover have "(s', s) \<in> bfs_rel g0"
      by (simp add: bfs_rel_def s' q)
    ultimately show "bfs_inv0 g0 s' \<and> (s', s) \<in> bfs_rel g0" by blast
  next
    case False
    then have s': "s' = bfs_expanded s"
      using b by (simp add: bfs_body_eq cur_def g_def split: if_splits)
    define new where "new = bfs_new s"
    note ef = bfs_expanded_facts [OF v [unfolded g_def] cgs [unfolded g_def cur_def],
        folded cur_def g_def rest_def s' new_def]
    have newD: "p \<in> set new \<Longrightarrow> in_grid g0 p \<and> \<not> isVisited (cell g p) \<and> \<not> isWall (cell g p)" for p
      using bfs_new_iff [OF cgs [unfolded g_def cur_def], of p] st
      by (simp add: new_def g_def same_static_in_grid)
    have cellf: "cell (b_grid s') p = (if p \<in> set new
        then (cell g p)\<lparr>isVisited := True, previousNode := Some cur\<rparr> else cell g p)" for p
      by (rule ef(6))
    have i1: "same_static g0 (b_grid s')"
    proof (rule same_static_trans_cells [OF st ef(3) ef(4) ef(5)])
      fix p assume "in_grid g0 p"
      show "isWall (cell (b_grid s') p) = isWall (cell g p)
          \<and> weight (cell (b_grid s') p) = weight (cell g p)"
        by (simp add: cellf)
    qed
    have i2: "\<forall>p \<in> set (b_queue s'). in_grid g0 p"
      using qg q newD by (auto simp: ef(2))
    have i3: "\<forall>p \<in> set (b_visited s'). in_grid g0 p \<and> \<not> isWall (cell g0 p)"
      using vg cg0 False same_static_isWall [OF st cg0] by (auto simp: ef(1))
    have fresh: "p \<in> set new \<Longrightarrow> p \<notin> set (b_queue s) \<union> set (b_visited s)" for p
      using newD [of p] mk by blast
    have dj: "set new \<inter> (set (b_queue s) \<union> set (b_visited s)) = {}"
      using fresh by blast
    have "distinct new" by (simp add: new_def bfs_new_distinct)
    then have i4: "distinct (b_visited s' @ b_queue s')"
      using di dj unfolding q by (auto simp: ef(1) ef(2))
    have i5: "\<forall>p \<in> set (b_queue s') \<union> set (b_visited s'). isVisited (cell (b_grid s') p)"
      using mk q by (auto simp: ef(1) ef(2) cellf)
    have "bfs_inv0 g0 s'"
      unfolding bfs_inv0_def using i1 i2 i3 i4 i5 by blast
    moreover have "(s', s) \<in> bfs_rel g0"
    proof (cases "new = []")
      case True
      then have "cell (b_grid s') p = cell g p" for p by (simp add: cellf)
      then show ?thesis by (simp add: bfs_rel_def ef(2) True q g_def)
    next
      case False
      then obtain n where n: "n \<in> set new" by (cases new) auto
      have "{p. in_grid g0 p \<and> \<not> isVisited (cell (b_grid s') p)}
          \<subset> {p. in_grid g0 p \<and> \<not> isVisited (cell g p)}"
        using newD [OF n] n by (auto simp: cellf)
      moreover have "finite {p. in_grid g0 p \<and> \<not> isVisited (cell g p)}"
        using finite_in_grid [of g0] by simp
      ultimately have "card {p. in_grid g0 p \<and> \<not> isVisited (cell (b_grid s') p)}
          < card {p. in_grid g0 p \<and> \<not> isVisited (cell g p)}"
        by (rule psubset_card_mono [rotated])
      then show ?thesis by (simp add: bfs_rel_def g_def)
    qed
    ultimately show "bfs_inv0 g0 s' \<and> (s', s) \<in> bfs_rel g0" by blast
  qed
qed

lemma bfs_inv0_return:
  assumes inv: "bfs_inv0 g0 s" and ne: "b_queue s \<noteq> []"
    and b: "bfs_body e s = Return s'"
  shows "s' = bfs_dequeued s" and "bfs_current s = e" and "\<not> isWall (cell g0 e)"
    and "bfs_inv0 g0 s'"
proof -
  have q: "b_queue s = bfs_current s # tl (b_queue s)"
    using ne by (simp add: bfs_current_def)
  have *: "s' = bfs_dequeued s \<and> bfs_current s = e \<and> \<not> isWall (cell (b_grid s) e)"
    using b by (auto simp: bfs_body_eq split: if_splits)
  have st: "same_static g0 (b_grid s)" and qg: "\<forall>p \<in> set (b_queue s). in_grid g0 p"
    using inv unfolding bfs_inv0_def by blast+
  have eg: "in_grid g0 e" using qg q * by (metis list.set_intros(1))
  show "s' = bfs_dequeued s" and "bfs_current s = e" using * by simp_all
  show nw: "\<not> isWall (cell g0 e)" using * same_static_isWall [OF st eg] by simp
  have s': "b_grid s' = b_grid s" "b_queue s' = tl (b_queue s)" "b_visited s' = b_visited s @ [e]"
    using * by (simp_all add: bfs_dequeued_def)
  obtain rest where qe: "b_queue s = e # rest" using q * by metis
  have "bfs_inv0 g0 (s\<lparr>b_queue := rest, b_visited := b_visited s @ [e]\<rparr>)"
    using inv eg nw unfolding bfs_inv0_def qe by (auto simp: qe)
  moreover have "s' = s\<lparr>b_queue := rest, b_visited := b_visited s @ [e]\<rparr>"
    using * by (simp add: bfs_dequeued_def qe)
  ultimately show "bfs_inv0 g0 s'" by simp
qed

lemma wf_bfs_rel: "wf (bfs_rel g0)"
  unfolding bfs_rel_def by (intro wf_inv_image wf_lex_prod wf_less_than)

lemma bfs_while_rule:
  assumes wf: "wf R" and I: "I s"
    and cont: "\<And>s s'. I s \<Longrightarrow> b_queue s \<noteq> [] \<Longrightarrow> bfs_body e s = Continue s'
                 \<Longrightarrow> I s' \<and> (s', s) \<in> R"
    and ret: "\<And>s s'. I s \<Longrightarrow> b_queue s \<noteq> [] \<Longrightarrow> bfs_body e s = Return s' \<Longrightarrow> Q s'"
    and ext: "\<And>s. I s \<Longrightarrow> b_queue s = [] \<Longrightarrow> Q s"
  shows "\<exists>s'. bfs_while e s = Some s' \<and> Q s'"
  using wf I
proof (induction s rule: wf_induct_rule)
  case (less s)
  show ?case
  proof (cases "b_queue s = []")
    case True
    then have "bfs_while e s = Some s" by (subst bfs_while.simps) simp
    then show ?thesis using ext [OF less.prems True] by simp
  next
    case False
    show ?thesis
    proof (cases "bfs_body e s")
      case (Continue s')
      then have "I s'" and "(s', s) \<in> R"
        using cont [OF less.prems False] by auto
      then obtain t where "bfs_while e s' = Some t" and "Q t"
        using less.IH by blast
      moreover have "bfs_while e s = bfs_while e s'"
        using False Continue by (subst bfs_while.simps) simp
      ultimately show ?thesis by simp
    next
      case (Return s')
      then have "Q s'" using ret [OF less.prems False] by auto
      moreover have "bfs_while e s = Some s'"
        using False Return by (subst bfs_while.simps) simp
      ultimately show ?thesis by simp
    qed
  qed
qed

lemma bfs_expand_step:
  assumes inv: "bfs_inv0 g0 s" and ne: "b_queue s \<noteq> []"
    and nw: "\<forall>p \<in> set (b_queue s). \<not> isWall (cell g0 p)"
    and b: "bfs_body e s = Continue s'"
  shows "bfs_current s \<noteq> e"
    and "b_queue s = bfs_current s # tl (b_queue s)"
    and "b_visited s' = b_visited s @ [bfs_current s]"
    and "b_queue s' = tl (b_queue s) @ bfs_new s"
    and "\<And>p. cell (b_grid s') p =
          (if p \<in> set (bfs_new s)
           then (cell (b_grid s) p)\<lparr>isVisited := True, previousNode := Some (bfs_current s)\<rparr>
           else cell (b_grid s) p)"
    and "\<And>p. p \<in> set (bfs_new s) \<longleftrightarrow>
           adjacent (bfs_current s) p \<and> passable g0 p \<and> \<not> isVisited (cell (b_grid s) p)"
    and "set (bfs_new s) \<inter> (set (b_queue s) \<union> set (b_visited s)) = {}"
proof -
  have q: "b_queue s = bfs_current s # tl (b_queue s)"
    using ne by (simp add: bfs_current_def)
  have st: "same_static g0 (b_grid s)" and qg: "\<forall>p \<in> set (b_queue s). in_grid g0 p"
    and mk: "\<forall>p \<in> set (b_queue s) \<union> set (b_visited s). isVisited (cell (b_grid s) p)"
    using inv unfolding bfs_inv0_def by blast+
  have v: "valid_grid (b_grid s)" using st by (rule same_static_valid)
  have cm: "bfs_current s \<in> set (b_queue s)" using q by (metis list.set_intros(1))
  have cg0: "in_grid g0 (bfs_current s)" using qg cm by blast
  have cgs: "in_grid (b_grid s) (bfs_current s)" using cg0 st by (simp add: same_static_in_grid)
  have nwc: "\<not> isWall (cell (b_grid s) (bfs_current s))"
    using nw cm same_static_isWall [OF st cg0] by blast
  have s': "s' = bfs_expanded s" and ce: "bfs_current s \<noteq> e"
    using b nwc by (simp_all add: bfs_body_eq split: if_splits)
  note ef = bfs_expanded_facts [OF v cgs, folded s']
  show "bfs_current s \<noteq> e" by (rule ce)
  show "b_queue s = bfs_current s # tl (b_queue s)" by (rule q)
  show "b_visited s' = b_visited s @ [bfs_current s]" by (rule ef(1))
  show "b_queue s' = tl (b_queue s) @ bfs_new s" by (rule ef(2))
  show "cell (b_grid s') p =
          (if p \<in> set (bfs_new s)
           then (cell (b_grid s) p)\<lparr>isVisited := True, previousNode := Some (bfs_current s)\<rparr>
           else cell (b_grid s) p)" for p
    by (rule ef(6))
  show iff: "p \<in> set (bfs_new s) \<longleftrightarrow>
           adjacent (bfs_current s) p \<and> passable g0 p \<and> \<not> isVisited (cell (b_grid s) p)" for p
    using bfs_new_iff [OF cgs, of p] same_static_isWall [OF st, of p] same_static_in_grid [OF st, of p]
    by (auto simp: passable_def)
  show "set (bfs_new s) \<inter> (set (b_queue s) \<union> set (b_visited s)) = {}"
    using iff mk by blast
qed

lemma bfs_return_step:
  assumes inv: "bfs_inv0 g0 s" and ne: "b_queue s \<noteq> []"
    and b: "bfs_body e s = Return s'"
  shows "b_queue s = e # b_queue s'" and "b_visited s' = b_visited s @ [e]"
    and "b_grid s' = b_grid s"
proof -
  note r = bfs_inv0_return [OF inv ne b]
  have q: "b_queue s = bfs_current s # tl (b_queue s)"
    using ne by (simp add: bfs_current_def)
  show "b_queue s = e # b_queue s'" using q r(1,2) by (simp add: bfs_dequeued_def)
  show "b_visited s' = b_visited s @ [e]" using r(1,2) by (simp add: bfs_dequeued_def)
  show "b_grid s' = b_grid s" using r(1) by (simp add: bfs_dequeued_def)
qed

lemma bfs_init_cell:
  assumes "valid_grid g0" and "in_grid g0 start"
  shows "cell (b_grid (bfs_init g0 start)) p =
     (if p = start then (cell g0 start)\<lparr>isVisited := True\<rparr> else cell g0 p)"
  using assms by (simp add: bfs_init_def cell_update_cell)

lemma bfs_invP_init:
  assumes s: "in_grid g0 start" and nw: "\<not> isWall (cell g0 start)"
  shows "bfs_invP g0 start (bfs_init g0 start)"
  unfolding bfs_invP_def using nw s by (simp add: bfs_init_def)

lemma bfs_invP_step:
  assumes inv: "bfs_inv0 g0 s" and invP: "bfs_invP g0 start s"
    and ne: "b_queue s \<noteq> []" and b: "bfs_body e s = Continue s'"
  shows "bfs_invP g0 start s'"
proof -
  define cur where "cur = bfs_current s"
  define g where "g = b_grid s"
  define rest where "rest = tl (b_queue s)"
  define new where "new = bfs_new s"
  have S: "start \<in> set (b_visited s @ b_queue s)"
    and N: "\<forall>p \<in> set (b_queue s). \<not> isWall (cell g0 p)"
    and C: "\<forall>p \<in> set (b_queue s) \<union> set (b_visited s). p \<noteq> start \<longrightarrow>
           (\<exists>q. previousNode (cell g p) = Some q \<and> q \<in> set (b_visited s) \<and> adjacent q p
              \<and> (p \<in> set (b_visited s) \<longrightarrow> before (b_visited s) q p))"
    using invP unfolding bfs_invP_def g_def by blast+
  have di: "distinct (b_visited s @ b_queue s)"
    using inv unfolding bfs_inv0_def by blast
  note es = bfs_expand_step [OF inv ne N b, folded cur_def g_def rest_def new_def]
  have q: "b_queue s = cur # rest" by (rule es(2))
  have vi: "b_visited s' = b_visited s @ [cur]" by (rule es(3))
  have qu: "b_queue s' = rest @ new" by (rule es(4))
  have cellf: "cell (b_grid s') p = (if p \<in> set new
      then (cell g p)\<lparr>isVisited := True, previousNode := Some cur\<rparr> else cell g p)" for p
    by (rule es(5))
  have newD: "p \<in> set new \<Longrightarrow> adjacent cur p \<and> passable g0 p" for p
    using es(6) [of p] by simp
  have dj: "set new \<inter> (set (b_queue s) \<union> set (b_visited s)) = {}" by (rule es(7))
  have 1: "start \<in> set (b_visited s' @ b_queue s')"
    using S q by (auto simp: vi qu)
  have 3: "\<forall>p \<in> set (b_queue s'). \<not> isWall (cell g0 p)"
  proof
    fix p assume "p \<in> set (b_queue s')"
    then consider "p \<in> set rest" | "p \<in> set new" by (auto simp: qu)
    then show "\<not> isWall (cell g0 p)"
    proof cases
      case 1 then show ?thesis using N q by simp
    next
      case 2 then show ?thesis using newD [OF 2] by (simp add: passable_def)
    qed
  qed
  have 5: "\<exists>r. previousNode (cell (b_grid s') p) = Some r \<and> r \<in> set (b_visited s') \<and> adjacent r p
              \<and> (p \<in> set (b_visited s') \<longrightarrow> before (b_visited s') r p)"
    if p: "p \<in> set (b_queue s') \<union> set (b_visited s')" and pn: "p \<noteq> start" for p
  proof (cases "p \<in> set new")
    case True
    then have "p \<notin> set (b_visited s')" using dj q by (auto simp: vi)
    moreover have "previousNode (cell (b_grid s') p) = Some cur" using True by (simp add: cellf)
    ultimately show ?thesis using newD [OF True] by (auto simp: vi)
  next
    case False
    then have old: "p \<in> set (b_queue s) \<union> set (b_visited s)"
      using p unfolding q by (auto simp: vi qu)
    then obtain r where r: "previousNode (cell g p) = Some r" "r \<in> set (b_visited s)" "adjacent r p"
      "p \<in> set (b_visited s) \<longrightarrow> before (b_visited s) r p"
      using C pn by blast
    have "before (b_visited s') r p" if "p \<in> set (b_visited s')"
    proof (cases "p = cur")
      case True
      then show ?thesis using r(2) by (simp add: vi before_snoc)
    next
      case False
      then have "p \<in> set (b_visited s)" using that by (simp add: vi)
      then show ?thesis using r(4) by (simp add: vi before_append)
    qed
    then show ?thesis
      using r False by (auto simp: cellf vi)
  qed
  show ?thesis
    unfolding bfs_invP_def using 1 3 5 by blast
qed

lemma bfs_invP_return:
  assumes inv: "bfs_inv0 g0 s" and invP: "bfs_invP g0 start s"
    and ne: "b_queue s \<noteq> []" and b: "bfs_body e s = Return s'"
  shows "bfs_invP g0 start s'"
proof -
  note rs = bfs_return_step [OF inv ne b]
  have S: "start \<in> set (b_visited s @ b_queue s)"
    and N: "\<forall>p \<in> set (b_queue s). \<not> isWall (cell g0 p)"
    and C: "\<forall>p \<in> set (b_queue s) \<union> set (b_visited s). p \<noteq> start \<longrightarrow>
           (\<exists>q. previousNode (cell (b_grid s) p) = Some q \<and> q \<in> set (b_visited s) \<and> adjacent q p
              \<and> (p \<in> set (b_visited s) \<longrightarrow> before (b_visited s) q p))"
    using invP unfolding bfs_invP_def by blast+
  have 1: "start \<in> set (b_visited s' @ b_queue s')"
    using S by (auto simp: rs(1) rs(2))
  have 3: "\<forall>p \<in> set (b_queue s'). \<not> isWall (cell g0 p)"
    using N by (simp add: rs(1))
  have 5: "\<exists>r. previousNode (cell (b_grid s') p) = Some r \<and> r \<in> set (b_visited s') \<and> adjacent r p
              \<and> (p \<in> set (b_visited s') \<longrightarrow> before (b_visited s') r p)"
    if p: "p \<in> set (b_queue s') \<union> set (b_visited s')" and pn: "p \<noteq> start" for p
  proof -
    have old: "p \<in> set (b_queue s) \<union> set (b_visited s)"
      using p by (auto simp: rs(1) rs(2))
    then obtain r where r: "previousNode (cell (b_grid s) p) = Some r" "r \<in> set (b_visited s)"
      "adjacent r p" "p \<in> set (b_visited s) \<longrightarrow> before (b_visited s) r p"
      using C pn by blast
    have "before (b_visited s') r p" if "p \<in> set (b_visited s')"
    proof (cases "p = e")
      case True
      then show ?thesis using r(2) by (simp add: rs(2) before_snoc)
    next
      case False
      then have "p \<in> set (b_visited s)" using that by (simp add: rs(2))
      then show ?thesis using r(4) by (simp add: rs(2) before_append)
    qed
    then show ?thesis using r by (auto simp: rs)
  qed
  show ?thesis
    unfolding bfs_invP_def using 1 3 5 by blast
qed

lemma bfs_invN_init:
  assumes v: "valid_grid g0" and s: "in_grid g0 start"
    and r: "all_cells (\<lambda>n. previousNode n = None) g0"
  shows "bfs_invN g0 start (bfs_init g0 start)"
proof -
  have "previousNode (cell (b_grid (bfs_init g0 start)) p) = None" if "in_grid g0 p" for p
    using all_cells_cell [OF r v that] all_cells_cell [OF r v s]
    by (simp add: bfs_init_cell [OF v s])
  then show ?thesis
    unfolding bfs_invN_def using s by blast
qed

lemma bfs_invN_step:
  assumes inv: "bfs_inv0 g0 s" and invP: "bfs_invP g0 start s" and invN: "bfs_invN g0 start s"
    and ne: "b_queue s \<noteq> []" and b: "bfs_body e s = Continue s'"
  shows "bfs_invN g0 start s'"
proof -
  have S: "start \<in> set (b_visited s @ b_queue s)"
    and N: "\<forall>p \<in> set (b_queue s). \<not> isWall (cell g0 p)"
    using invP unfolding bfs_invP_def by blast+
  have ps: "previousNode (cell (b_grid s) start) = None"
    and U: "\<forall>p. in_grid g0 p \<and> p \<notin> set (b_queue s) \<union> set (b_visited s) \<longrightarrow>
            previousNode (cell (b_grid s) p) = None"
    using invN unfolding bfs_invN_def by blast+
  note es = bfs_expand_step [OF inv ne N b]
  have sn: "start \<notin> set (bfs_new s)" using S es(7) by auto
  have 2: "previousNode (cell (b_grid s') start) = None"
    using ps sn by (simp add: es(5))
  have 4: "previousNode (cell (b_grid s') p) = None"
    if p: "in_grid g0 p \<and> p \<notin> set (b_queue s') \<union> set (b_visited s')" for p
  proof -
    have "b_queue s = bfs_current s # tl (b_queue s)" by (rule es(2))
    then have "set (b_queue s) = insert (bfs_current s) (set (tl (b_queue s)))"
      by (metis list.simps(15))
    then have "p \<notin> set (bfs_new s)" and "p \<notin> set (b_queue s) \<union> set (b_visited s)"
      using p by (auto simp: es(3) es(4))
    then show ?thesis using U p by (simp add: es(5))
  qed
  show ?thesis
    unfolding bfs_invN_def using 2 4 by blast
qed

lemma bfs_invN_return:
  assumes inv: "bfs_inv0 g0 s" and invN: "bfs_invN g0 start s"
    and ne: "b_queue s \<noteq> []" and b: "bfs_body e s = Return s'"
  shows "bfs_invN g0 start s'"
proof -
  note rs = bfs_return_step [OF inv ne b]
  show ?thesis
    using invN unfolding bfs_invN_def by (auto simp: rs)
qed

lemma bfs_walk:
  assumes inv: "bfs_inv0 g0 s" and invP: "bfs_invP g0 start s" and invN: "bfs_invN g0 start s"
    and p: "p \<in> set (b_visited s)"
  shows "\<exists>xs. (\<forall>acc. path_while (b_grid s) (Some p) acc = Some (xs @ acc)) \<and> is_path g0 xs \<and>
           hd xs = start \<and> last xs = p \<and> set xs \<subseteq> set (b_visited s) \<and>
           (\<forall>i. Suc i < length xs \<longrightarrow>
              previousNode (cell (b_grid s) (xs ! Suc i)) = Some (xs ! i))"
proof -
  have dv: "distinct (b_visited s)"
    and vg: "\<forall>p \<in> set (b_visited s). in_grid g0 p \<and> \<not> isWall (cell g0 p)"
    using inv unfolding bfs_inv0_def by auto
  have s0: "previousNode (cell (b_grid s) start) = None"
    using invN unfolding bfs_invN_def by blast
  have C: "\<forall>p \<in> set (b_queue s) \<union> set (b_visited s). p \<noteq> start \<longrightarrow>
           (\<exists>q. previousNode (cell (b_grid s) p) = Some q \<and> q \<in> set (b_visited s) \<and> adjacent q p
              \<and> (p \<in> set (b_visited s) \<longrightarrow> before (b_visited s) q p))"
    using invP unfolding bfs_invP_def by blast+
  show ?thesis
  proof (rule walk_along [OF dv s0])
    fix r assume r: "r \<in> set (b_visited s)" "r \<noteq> start"
    then show "\<exists>q. previousNode (cell (b_grid s) r) = Some q \<and> before (b_visited s) q r \<and> adjacent q r"
      using C by blast
  next
    fix r assume "r \<in> set (b_visited s)"
    then show "passable g0 r" using vg by (simp add: passable_def)
  next
    show "p \<in> set (b_visited s)" by (rule p)
  qed
qed

lemma chain_along:
  assumes d: "distinct vs"
    and link: "\<And>p. p \<in> set vs \<Longrightarrow> p \<noteq> start \<Longrightarrow>
        \<exists>q. before vs q p \<and> adjacent q p \<and> lev p = Suc (lev q)"
    and pass: "\<And>p. p \<in> set vs \<Longrightarrow> passable g0 p"
    and l0: "lev start = (0::nat)"
    and p: "p \<in> set vs"
  shows "\<exists>xs. is_path g0 xs \<and> hd xs = start \<and> last xs = p \<and> length xs = Suc (lev p)"
proof -
  have "\<exists>xs. is_path g0 xs \<and> hd xs = start \<and> last xs = vs ! j \<and> length xs = Suc (lev (vs ! j))"
    if "j < length vs" for j
    using that
  proof (induction j rule: less_induct)
    case (less j)
    then have mem: "vs ! j \<in> set vs" by simp
    show ?case
    proof (cases "vs ! j = start")
      case True
      have "is_path g0 [start]" using pass [OF mem] True by simp
      then show ?thesis using True l0
        by (intro exI [of _ "[start]"]) simp
    next
      case False
      then obtain q where b: "before vs q (vs ! j)" and a: "adjacent q (vs ! j)"
        and l: "lev (vs ! j) = Suc (lev q)"
        using link [OF mem] by blast
      obtain i where i: "i < j" and qi: "vs ! i = q"
        using b d less.prems by (rule before_index)
      have "i < length vs" using i less.prems by simp
      then obtain xs where xs: "is_path g0 xs" "hd xs = start" "last xs = q"
        "length xs = Suc (lev q)"
        using less.IH [OF i] qi by blast
      have ne: "xs \<noteq> []" using xs(1) by auto
      have "is_path g0 (xs @ [vs ! j])"
        using xs(1,3) a pass [OF mem] ne by (simp add: is_path_snoc)
      then show ?thesis
        using xs(2,4) ne l by (intro exI [of _ "xs @ [vs ! j]"]) simp
    qed
  qed
  then show ?thesis using p by (metis in_set_conv_nth)
qed

section \<open>Breadth-first search: levels\<close>

lemma bfs_invO_init:
  assumes v: "valid_grid g0" and s: "in_grid g0 start"
    and r: "all_cells (\<lambda>n. \<not> isVisited n) g0"
  shows "bfs_invO g0 start e (bfs_init g0 start)"
proof -
  have "\<not> isVisited (cell (b_grid (bfs_init g0 start)) p)" if "passable g0 p" "p \<noteq> start" for p
    using all_cells_cell [OF r v] that by (simp add: bfs_init_cell [OF v s] passable_def)
  moreover have q: "b_queue (bfs_init g0 start) = [start]" "b_visited (bfs_init g0 start) = []"
    by (simp_all add: bfs_init_def)
  moreover have "bfs_invL g0 start (bfs_init g0 start) (\<lambda>_. 0)"
    unfolding bfs_invL_def by (simp add: q)
  ultimately show ?thesis
    unfolding bfs_invO_def by auto
qed

lemma bfs_path_bound:
  assumes invP: "bfs_invP g0 start s" and L: "bfs_invL g0 start s lev"
  shows "is_path g0 P \<Longrightarrow> hd P = start \<Longrightarrow>
    (\<exists>z \<in> set (b_queue s). Suc (lev z) \<le> length P)
    \<or> (last P \<in> set (b_visited s) \<and> Suc (lev (last P)) \<le> length P)"
proof (induction P rule: rev_induct)
  case Nil
  then show ?case by simp
next
  case (snoc y P)
  have S: "start \<in> set (b_visited s @ b_queue s)"
    using invP unfolding bfs_invP_def by blast
  have l0: "lev start = 0"
    and R: "\<And>q p. q \<in> set (b_visited s) \<Longrightarrow> adjacent q p \<Longrightarrow> passable g0 p \<Longrightarrow>
           p \<in> set (b_queue s) \<union> set (b_visited s) \<and> lev p \<le> Suc (lev q)"
    using L unfolding bfs_invL_def by blast+
  show ?case
  proof (cases "P = []")
    case True
    then have "y = start" using snoc.prems by simp
    then show ?thesis using S l0 True by auto
  next
    case False
    then have pP: "is_path g0 P" and a: "adjacent (last P) y" and py: "passable g0 y"
      and hP: "hd P = start"
      using snoc.prems by (simp_all add: is_path_snoc)
    from snoc.IH [OF pP hP] show ?thesis
    proof
      assume "\<exists>z \<in> set (b_queue s). Suc (lev z) \<le> length P"
      then obtain z where "z \<in> set (b_queue s)" "Suc (lev z) \<le> length P" by blast
      then have "z \<in> set (b_queue s) \<and> Suc (lev z) \<le> length (P @ [y])" by simp
      then show ?thesis by blast
    next
      assume B: "last P \<in> set (b_visited s) \<and> Suc (lev (last P)) \<le> length P"
      then have "y \<in> set (b_queue s) \<union> set (b_visited s)" "lev y \<le> Suc (lev (last P))"
        using R [OF _ a py] by auto
      then have "y \<in> set (b_queue s) \<union> set (b_visited s)" "Suc (lev y) \<le> length (P @ [y])"
        using B by simp_all
      then show ?thesis by auto
    qed
  qed
qed

lemma bfs_visited_optimal:
  assumes invP: "bfs_invP g0 start s" and L: "bfs_invL g0 start s lev"
    and p: "p \<in> set (b_visited s)" and P: "path_between g0 start p P"
  shows "Suc (lev p) \<le> length P"
proof -
  have so: "sorted (map lev (b_visited s @ b_queue s))"
    using L unfolding bfs_invL_def by blast
  have "is_path g0 P" "hd P = start" "last P = p"
    using P by (simp_all add: path_between_def)
  then consider z where "z \<in> set (b_queue s)" "Suc (lev z) \<le> length P"
    | "Suc (lev p) \<le> length P"
    using bfs_path_bound [OF invP L, of P] by auto
  then show ?thesis
  proof cases
    case 1
    have "lev p \<le> lev z"
      using so p 1(1) by (auto simp: sorted_append)
    then show ?thesis using 1(2) by simp
  next
    case 2
    then show ?thesis .
  qed
qed

lemma bfs_invO_step:
  assumes inv: "bfs_inv0 g0 s" and invP: "bfs_invP g0 start s"
    and invO: "bfs_invO g0 start e s"
    and ne: "b_queue s \<noteq> []" and b: "bfs_body e s = Continue s'"
  shows "bfs_invO g0 start e s'"
proof -
  define cur where "cur = bfs_current s"
  define g where "g = b_grid s"
  define rest where "rest = tl (b_queue s)"
  define new where "new = bfs_new s"
  obtain lev where L: "bfs_invL g0 start s lev"
    using invO unfolding bfs_invO_def by blast
  define lev' where "lev' p = (if p \<in> set new then Suc (lev cur) else lev p)" for p
  have U: "\<And>p. passable g0 p \<Longrightarrow> p \<notin> set (b_queue s) \<union> set (b_visited s) \<Longrightarrow>
          \<not> isVisited (cell g p)"
    and E: "e \<notin> set (b_visited s)"
    using invO unfolding bfs_invO_def g_def by blast+
  have l0: "lev start = 0"
    and Ch: "\<And>p. p \<in> set (b_queue s) \<union> set (b_visited s) \<Longrightarrow> p \<noteq> start \<Longrightarrow>
           \<exists>q. previousNode (cell g p) = Some q \<and> lev p = Suc (lev q)"
    and So: "sorted (map lev (b_visited s @ b_queue s))"
    and Gap: "\<And>p q. p \<in> set (b_queue s) \<Longrightarrow> q \<in> set (b_queue s) \<Longrightarrow> lev p \<le> Suc (lev q)"
    and R: "\<And>q p. q \<in> set (b_visited s) \<Longrightarrow> adjacent q p \<Longrightarrow> passable g0 p \<Longrightarrow>
           p \<in> set (b_queue s) \<union> set (b_visited s) \<and> lev p \<le> Suc (lev q)"
    using L unfolding bfs_invL_def g_def by blast+
  have S: "start \<in> set (b_visited s @ b_queue s)"
    and N: "\<forall>p \<in> set (b_queue s). \<not> isWall (cell g0 p)"
    and C: "\<And>p. p \<in> set (b_queue s) \<union> set (b_visited s) \<Longrightarrow> p \<noteq> start \<Longrightarrow>
           \<exists>q. previousNode (cell g p) = Some q \<and> q \<in> set (b_visited s)"
    using invP unfolding bfs_invP_def g_def by blast+
  note es = bfs_expand_step [OF inv ne N b, folded cur_def g_def rest_def new_def]
  have ce: "cur \<noteq> e" by (rule es(1))
  have q: "b_queue s = cur # rest" by (rule es(2))
  have vi: "b_visited s' = b_visited s @ [cur]" by (rule es(3))
  have qu: "b_queue s' = rest @ new" by (rule es(4))
  have cellf: "cell (b_grid s') p = (if p \<in> set new
      then (cell g p)\<lparr>isVisited := True, previousNode := Some cur\<rparr> else cell g p)" for p
    by (rule es(5))
  have new_iff: "p \<in> set new \<longleftrightarrow> adjacent cur p \<and> passable g0 p \<and> \<not> isVisited (cell g p)" for p
    by (rule es(6))
  have dj: "set new \<inter> (set (b_queue s) \<union> set (b_visited s)) = {}" by (rule es(7))
  have old_lev: "p \<in> set (b_queue s) \<union> set (b_visited s) \<Longrightarrow> lev' p = lev p" for p
    using dj by (auto simp: lev'_def)
  have new_lev: "p \<in> set new \<Longrightarrow> lev' p = Suc (lev cur)" for p
    by (simp add: lev'_def)
  have cq: "cur \<in> set (b_queue s)" using q by simp
  have lc: "lev' cur = lev cur" using old_lev cq by simp
  have vis_le: "x \<in> set (b_visited s) \<Longrightarrow> lev x \<le> lev cur" for x
    using So unfolding q by (simp add: sorted_append)
  have rest_ge: "x \<in> set rest \<Longrightarrow> lev cur \<le> lev x" for x
    using So unfolding q by (simp add: sorted_append)
  have rest_le: "x \<in> set rest \<Longrightarrow> lev x \<le> Suc (lev cur)" for x
    using Gap [of x cur] q by simp
  have 1: "\<not> isVisited (cell (b_grid s') p)"
    if "passable g0 p" "p \<notin> set (b_queue s') \<union> set (b_visited s')" for p
  proof -
    have "p \<notin> set new" "p \<notin> set (b_queue s) \<union> set (b_visited s)"
      using that(2) unfolding q by (auto simp: vi qu)
    then show ?thesis using U [OF that(1)] by (simp add: cellf)
  qed
  have 2: "e \<notin> set (b_visited s')" using E ce by (simp add: vi)
  have l1: "lev' start = 0"
    using old_lev [of start] S l0 by auto
  have l2: "\<exists>r. previousNode (cell (b_grid s') p) = Some r \<and> lev' p = Suc (lev' r)"
    if p: "p \<in> set (b_queue s') \<union> set (b_visited s')" and pn: "p \<noteq> start" for p
  proof (cases "p \<in> set new")
    case True
    then show ?thesis by (simp add: cellf new_lev lc)
  next
    case False
    then have old: "p \<in> set (b_queue s) \<union> set (b_visited s)"
      using p unfolding q by (auto simp: vi qu)
    obtain r where r: "previousNode (cell g p) = Some r" "lev p = Suc (lev r)"
      using Ch [OF old pn] by blast
    obtain r' where "previousNode (cell g p) = Some r'" "r' \<in> set (b_visited s)"
      using C [OF old pn] by blast
    then have "r \<in> set (b_visited s)" using r(1) by simp
    then have "lev' r = lev r" using old_lev by simp
    then show ?thesis using r False old_lev [OF old] by (simp add: cellf)
  qed
  have l3: "sorted (map lev' (b_visited s' @ b_queue s'))"
  proof -
    have eq: "map lev' (b_visited s @ cur # rest) = map lev (b_visited s @ cur # rest)"
      using old_lev unfolding q by (intro map_cong refl) auto
    have a: "sorted (map lev' (b_visited s @ cur # rest))"
      using So unfolding q eq .
    have b: "sorted (map lev' new)"
      using new_lev by (simp add: sorted_wrt_iff_nth_less sorted_wrt_map)
    have c: "lev' x \<le> lev' y" if "x \<in> set (b_visited s @ cur # rest)" "y \<in> set new" for x y
    proof -
      have "lev x \<le> Suc (lev cur)"
        using that(1) vis_le [of x] rest_le [of x] by auto
      moreover have "lev' x = lev x" using old_lev [of x] that(1) q by auto
      ultimately show ?thesis using new_lev [OF that(2)] by simp
    qed
    have "sorted (map lev' ((b_visited s @ cur # rest) @ new))"
      using a b c unfolding map_append sorted_append by auto
    then show ?thesis by (simp add: vi qu)
  qed
  have l4: "lev' p \<le> Suc (lev' r)" if "p \<in> set (b_queue s')" "r \<in> set (b_queue s')" for p r
  proof -
    have pc: "p \<in> set rest \<and> lev' p = lev p \<or> p \<in> set new \<and> lev' p = Suc (lev cur)"
      using that(1) old_lev [of p] new_lev [of p] q by (auto simp: qu)
    have rc: "r \<in> set rest \<and> lev' r = lev r \<or> r \<in> set new \<and> lev' r = Suc (lev cur)"
      using that(2) old_lev [of r] new_lev [of r] q by (auto simp: qu)
    show ?thesis
      using pc rc Gap [of p r] rest_ge [of r] rest_le [of p] q by auto
  qed
  have l5: "p \<in> set (b_queue s') \<union> set (b_visited s') \<and> lev' p \<le> Suc (lev' r)"
    if r: "r \<in> set (b_visited s')" and a: "adjacent r p" and pp: "passable g0 p" for r p
  proof (cases "r = cur")
    case True
    show ?thesis
    proof (cases "p \<in> set new")
      case True
      then show ?thesis using \<open>r = cur\<close> by (simp add: qu new_lev lc)
    next
      case False
      then have "isVisited (cell g p)" using new_iff [of p] a pp \<open>r = cur\<close> by simp
      then have old: "p \<in> set (b_queue s) \<union> set (b_visited s)" using U [OF pp] by blast
      then have "lev p \<le> Suc (lev cur)"
        using vis_le [of p] rest_le [of p] q by auto
      moreover have "p \<in> set (b_queue s') \<union> set (b_visited s')"
        using old unfolding q by (auto simp: vi qu)
      ultimately show ?thesis using old_lev [OF old] \<open>r = cur\<close> lc by simp
    qed
  next
    case False
    then have rv: "r \<in> set (b_visited s)" using r by (simp add: vi)
    have old: "p \<in> set (b_queue s) \<union> set (b_visited s)" "lev p \<le> Suc (lev r)"
      using R [OF rv a pp] by auto
    have "p \<in> set (b_queue s') \<union> set (b_visited s')"
      using old(1) unfolding q by (auto simp: vi qu)
    moreover have "lev' r = lev r" using old_lev rv by simp
    ultimately show ?thesis using old_lev [OF old(1)] old(2) by simp
  qed
  have "bfs_invL g0 start s' lev'"
    unfolding bfs_invL_def using l1 l2 l3 l4 l5 by blast
  then show ?thesis
    unfolding bfs_invO_def using 1 2 by blast
qed

lemma bfs_run:
  assumes v: "valid_grid g" and ps: "passable g start"
    and rv: "all_cells (\<lambda>n. \<not> isVisited n) g"
  shows "\<exists>s'. bfs_while e (bfs_init g start) = Some s' \<and> bfs_inv0 g s' \<and> bfs_invP g start s'
     \<and> (\<exists>lev. bfs_levels g start s' lev)
     \<and> (b_queue s' = [] \<and> e \<notin> set (b_visited s') \<and>
          (\<forall>p P. path_between g start p P \<longrightarrow> p \<in> set (b_visited s'))
        \<or> b_visited s' \<noteq> [] \<and> last (b_visited s') = e)"
proof (rule bfs_while_rule [where R = "bfs_rel g"
      and I = "\<lambda>s. bfs_inv0 g s \<and> bfs_invP g start s \<and> bfs_invO g start e s"])
  show "wf (bfs_rel g)" by (rule wf_bfs_rel)
  have s: "in_grid g start" and nw: "\<not> isWall (cell g start)"
    using ps by (simp_all add: passable_def)
  show "bfs_inv0 g (bfs_init g start) \<and> bfs_invP g start (bfs_init g start)
      \<and> bfs_invO g start e (bfs_init g start)"
    using bfs_inv0_init [OF v s] bfs_invP_init [OF s nw] bfs_invO_init [OF v s rv]
    by blast
next
  fix s s'
  assume I: "bfs_inv0 g s \<and> bfs_invP g start s \<and> bfs_invO g start e s"
    and ne: "b_queue s \<noteq> []" and b: "bfs_body e s = Continue s'"
  then show "(bfs_inv0 g s' \<and> bfs_invP g start s' \<and> bfs_invO g start e s') \<and> (s', s) \<in> bfs_rel g"
    using bfs_inv0_step [of g s e s'] bfs_invP_step [of g s start e s']
      bfs_invO_step [of g s start e s']
    by blast
next
  fix s s'
  assume I: "bfs_inv0 g s \<and> bfs_invP g start s \<and> bfs_invO g start e s"
    and ne: "b_queue s \<noteq> []" and b: "bfs_body e s = Return s'"
  then have inv: "bfs_inv0 g s" and invP: "bfs_invP g start s" and invO: "bfs_invO g start e s"
    by blast+
  obtain lev where L: "bfs_invL g start s lev"
    using invO unfolding bfs_invO_def by blast
  note rs = bfs_return_step [OF inv ne b]
  have l0: "lev start = 0"
    and Ch: "\<And>p. p \<in> set (b_queue s) \<union> set (b_visited s) \<Longrightarrow> p \<noteq> start \<Longrightarrow>
           \<exists>q. previousNode (cell (b_grid s) p) = Some q \<and> lev p = Suc (lev q)"
    and So: "sorted (map lev (b_visited s @ b_queue s))"
    using L unfolding bfs_invL_def by blast+
  have so': "sorted (map lev (b_visited s @ [e]))"
    using So unfolding rs(1) by (auto simp: sorted_append)
  have opt: "Suc (lev p) \<le> length P"
    if p: "p \<in> set (b_visited s')" and P: "path_between g start p P" for p P
  proof (cases "p \<in> set (b_visited s)")
    case True
    then show ?thesis using bfs_visited_optimal [OF invP L _ P] by blast
  next
    case False
    then have pe: "p = e" using p by (simp add: rs(2))
    have "is_path g P" "hd P = start" "last P = e"
      using P pe by (simp_all add: path_between_def)
    then consider z where "z \<in> set (b_queue s)" "Suc (lev z) \<le> length P"
      | "Suc (lev e) \<le> length P"
      using bfs_path_bound [OF invP L, of P] by auto
    then show ?thesis
    proof cases
      case 1
      have "lev e \<le> lev z"
        using So 1(1) unfolding rs(1) by (auto simp: sorted_append)
      then show ?thesis using 1(2) pe by simp
    next
      case 2
      then show ?thesis using pe by simp
    qed
  qed
  have ch': "\<exists>q. previousNode (cell (b_grid s') p) = Some q \<and> lev p = Suc (lev q)"
    if "p \<in> set (b_visited s')" "p \<noteq> start" for p
  proof -
    have "p \<in> set (b_queue s) \<union> set (b_visited s)"
      using that(1) by (auto simp: rs(1) rs(2))
    then show ?thesis using Ch that(2) by (simp add: rs(3))
  qed
  have "bfs_levels g start s' lev"
    unfolding bfs_levels_def using l0 ch' so' opt by (auto simp: rs(2))
  then show "bfs_inv0 g s' \<and> bfs_invP g start s' \<and> (\<exists>lev. bfs_levels g start s' lev)
     \<and> (b_queue s' = [] \<and> e \<notin> set (b_visited s') \<and>
          (\<forall>p P. path_between g start p P \<longrightarrow> p \<in> set (b_visited s'))
        \<or> b_visited s' \<noteq> [] \<and> last (b_visited s') = e)"
    using bfs_inv0_return(4) [OF inv ne b] bfs_invP_return [OF inv invP ne b]
    by (auto simp: rs(2))
next
  fix s
  assume I: "bfs_inv0 g s \<and> bfs_invP g start s \<and> bfs_invO g start e s"
    and em: "b_queue s = []"
  then have inv: "bfs_inv0 g s" and invP: "bfs_invP g start s" and invO: "bfs_invO g start e s"
    by blast+
  obtain lev where L: "bfs_invL g start s lev"
    using invO unfolding bfs_invO_def by blast
  have E: "e \<notin> set (b_visited s)"
    using invO unfolding bfs_invO_def by blast
  have l0: "lev start = 0"
    and Ch: "\<And>p. p \<in> set (b_queue s) \<union> set (b_visited s) \<Longrightarrow> p \<noteq> start \<Longrightarrow>
           \<exists>q. previousNode (cell (b_grid s) p) = Some q \<and> lev p = Suc (lev q)"
    and So: "sorted (map lev (b_visited s @ b_queue s))"
    using L unfolding bfs_invL_def by blast+
  have "bfs_levels g start s lev"
    unfolding bfs_levels_def
    using l0 Ch So bfs_visited_optimal [OF invP L] by (auto simp: em)
  moreover have "p \<in> set (b_visited s)" if "path_between g start p P" for p P
  proof -
    have "is_path g P" "hd P = start" "last P = p"
      using that by (simp_all add: path_between_def)
    then show ?thesis using bfs_path_bound [OF invP L, of P] em by auto
  qed
  ultimately show "bfs_inv0 g s \<and> bfs_invP g start s \<and> (\<exists>lev. bfs_levels g start s lev)
     \<and> (b_queue s = [] \<and> e \<notin> set (b_visited s) \<and>
          (\<forall>p P. path_between g start p P \<longrightarrow> p \<in> set (b_visited s))
        \<or> b_visited s \<noteq> [] \<and> last (b_visited s) = e)"
    using inv invP E em by blast
qed

lemma bfs_visited_reachable:
  assumes inv: "bfs_inv0 g0 s" and invP: "bfs_invP g0 start s"
    and Lv: "bfs_levels g0 start s lev" and p: "p \<in> set (b_visited s)"
  shows "\<exists>xs. path_between g0 start p xs \<and> length xs = Suc (lev p)"
proof -
  have dv: "distinct (b_visited s)"
    and vg: "\<forall>p \<in> set (b_visited s). in_grid g0 p \<and> \<not> isWall (cell g0 p)"
    using inv unfolding bfs_inv0_def by auto
  have C: "\<And>p. p \<in> set (b_visited s) \<Longrightarrow> p \<noteq> start \<Longrightarrow>
           \<exists>q. previousNode (cell (b_grid s) p) = Some q \<and> adjacent q p \<and> before (b_visited s) q p"
    using invP unfolding bfs_invP_def by blast
  have l0: "lev start = 0"
    and Ch: "\<And>p. p \<in> set (b_visited s) \<Longrightarrow> p \<noteq> start \<Longrightarrow>
           \<exists>q. previousNode (cell (b_grid s) p) = Some q \<and> lev p = Suc (lev q)"
    using Lv unfolding bfs_levels_def by blast+
  have "\<exists>xs. is_path g0 xs \<and> hd xs = start \<and> last xs = p \<and> length xs = Suc (lev p)"
  proof (rule chain_along [where vs = "b_visited s" and lev = lev and start = start])
    show "distinct (b_visited s)" by (rule dv)
    show "lev start = 0" by (rule l0)
    show "p \<in> set (b_visited s)" by (rule p)
  next
    fix r assume r: "r \<in> set (b_visited s)" "r \<noteq> start"
    obtain q where q: "previousNode (cell (b_grid s) r) = Some q" "adjacent q r"
      "before (b_visited s) q r"
      using C [OF r] by blast
    obtain q' where "previousNode (cell (b_grid s) r) = Some q'" "lev r = Suc (lev q')"
      using Ch [OF r] by blast
    then have "lev r = Suc (lev q)" using q(1) by simp
    then show "\<exists>q. before (b_visited s) q r \<and> adjacent q r \<and> lev r = Suc (lev q)"
      using q by blast
  next
    fix r assume "r \<in> set (b_visited s)"
    then show "passable g0 r" using vg by (simp add: passable_def)
  qed
  then show ?thesis by (auto simp: path_between_def)
qed

lemma bfs_run_invN:
  assumes v: "valid_grid g" and ps: "passable g start"
    and rp: "all_cells (\<lambda>n. previousNode n = None) g"
  shows "\<exists>s'. bfs_while e (bfs_init g start) = Some s' \<and> bfs_invN g start s'"
proof (rule bfs_while_rule [where R = "bfs_rel g"
      and I = "\<lambda>s. bfs_inv0 g s \<and> bfs_invP g start s \<and> bfs_invN g start s"])
  show "wf (bfs_rel g)" by (rule wf_bfs_rel)
  have s: "in_grid g start" and nw: "\<not> isWall (cell g start)"
    using ps by (simp_all add: passable_def)
  show "bfs_inv0 g (bfs_init g start) \<and> bfs_invP g start (bfs_init g start)
      \<and> bfs_invN g start (bfs_init g start)"
    using bfs_inv0_init [OF v s] bfs_invP_init [OF s nw] bfs_invN_init [OF v s rp]
    by blast
next
  fix s s'
  assume "bfs_inv0 g s \<and> bfs_invP g start s \<and> bfs_invN g start s"
    and "b_queue s \<noteq> []" and "bfs_body e s = Continue s'"
  then show "(bfs_inv0 g s' \<and> bfs_invP g start s' \<and> bfs_invN g start s') \<and> (s', s) \<in> bfs_rel g"
    using bfs_inv0_step [of g s e s'] bfs_invP_step [of g s start e s']
      bfs_invN_step [of g s start e s']
    by blast
next
  fix s s'
  assume "bfs_inv0 g s \<and> bfs_invP g start s \<and> bfs_invN g start s"
    and "b_queue s \<noteq> []" and "bfs_body e s = Return s'"
  then show "bfs_invN g start s'"
    using bfs_invN_return [of g s start e s'] by blast
next
  fix s
  assume "bfs_inv0 g s \<and> bfs_invP g start s \<and> bfs_invN g start s"
  then show "bfs_invN g start s" by blast
qed

lemma bfs_chain_length:
  assumes Lv: "bfs_levels g0 start s lev"
    and s0: "previousNode (cell (b_grid s) start) = None"
  shows "xs \<noteq> [] \<Longrightarrow> hd xs = start \<Longrightarrow> set xs \<subseteq> set (b_visited s) \<Longrightarrow>
    (\<forall>i. Suc i < length xs \<longrightarrow> previousNode (cell (b_grid s) (xs ! Suc i)) = Some (xs ! i)) \<Longrightarrow>
    length xs = Suc (lev (last xs))"
proof (induction xs rule: rev_induct)
  case Nil
  then show ?case by simp
next
  case (snoc y xs)
  have l0: "lev start = 0"
    and Ch: "\<And>p. p \<in> set (b_visited s) \<Longrightarrow> p \<noteq> start \<Longrightarrow>
           \<exists>q. previousNode (cell (b_grid s) p) = Some q \<and> lev p = Suc (lev q)"
    using Lv unfolding bfs_levels_def by blast+
  show ?case
  proof (cases "xs = []")
    case True
    then show ?thesis using snoc.prems l0 by simp
  next
    case False
    then have hx: "hd xs = start" and sx: "set xs \<subseteq> set (b_visited s)"
      and yv: "y \<in> set (b_visited s)"
      using snoc.prems by simp_all
    have lx: "\<forall>i. Suc i < length xs \<longrightarrow> previousNode (cell (b_grid s) (xs ! Suc i)) = Some (xs ! i)"
    proof (intro allI impI)
      fix i assume i: "Suc i < length xs"
      then have "previousNode (cell (b_grid s) ((xs @ [y]) ! Suc i)) = Some ((xs @ [y]) ! i)"
        using snoc.prems(4) by simp
      then show "previousNode (cell (b_grid s) (xs ! Suc i)) = Some (xs ! i)"
        using i by (simp add: nth_append)
    qed
    have ih: "length xs = Suc (lev (last xs))"
      using snoc.IH [OF False hx sx lx] .
    obtain k where k: "length xs = Suc k" using False by (cases xs) auto
    have "previousNode (cell (b_grid s) ((xs @ [y]) ! Suc k)) = Some ((xs @ [y]) ! k)"
      using snoc.prems(4) k by simp
    then have link: "previousNode (cell (b_grid s) y) = Some (last xs)"
      using k False by (simp add: nth_append last_conv_nth)
    then have "y \<noteq> start" using s0 by auto
    then have "lev y = Suc (lev (last xs))"
      using Ch [OF yv] link by auto
    then show ?thesis using ih by simp
  qed
qed

lemma bfs_min_path:
  assumes v: "valid_grid g"
    and r: "all_cells (\<lambda>n. \<not> isVisited n \<and> previousNode n = None) g"
    and path: "\<exists>P. path_between g startNode endNode P"
  shows "\<exists>s' xs. bfs_while endNode (bfs_init g startNode) = Some s'
    \<and> b_visited s' \<noteq> [] \<and> last (b_visited s') = endNode
    \<and> (\<forall>acc. path_while (b_grid s') (Some endNode) acc = Some (xs @ acc))
    \<and> path_between g startNode endNode xs
    \<and> (\<forall>P. path_between g startNode endNode P \<longrightarrow> length xs \<le> length P)"
proof -
  obtain P0 where P0: "path_between g startNode endNode P0" using path by blast
  then have ps: "passable g startNode"
    using is_path_hd_passable [of g P0] by (auto simp: path_between_def)
  have rv: "all_cells (\<lambda>n. \<not> isVisited n) g" and rp: "all_cells (\<lambda>n. previousNode n = None) g"
    using r by (simp_all add: all_cells_conj)
  obtain s' lev where w: "bfs_while endNode (bfs_init g startNode) = Some s'"
    and inv: "bfs_inv0 g s'" and invP: "bfs_invP g startNode s'"
    and Lv: "bfs_levels g startNode s' lev"
    and kind: "b_queue s' = [] \<and> endNode \<notin> set (b_visited s') \<and>
          (\<forall>p P. path_between g startNode p P \<longrightarrow> p \<in> set (b_visited s'))
        \<or> b_visited s' \<noteq> [] \<and> last (b_visited s') = endNode"
    using bfs_run [OF v ps rv, of endNode] by blast
  have invN: "bfs_invN g startNode s'"
    using bfs_run_invN [OF v ps rp, of endNode] w by auto
  have vne: "b_visited s' \<noteq> []" and le: "last (b_visited s') = endNode"
    using kind P0 by blast+
  have ev: "endNode \<in> set (b_visited s')" using vne le last_in_set by metis
  obtain xs where xs: "\<forall>acc. path_while (b_grid s') (Some endNode) acc = Some (xs @ acc)"
    "is_path g xs" "hd xs = startNode" "last xs = endNode" "set xs \<subseteq> set (b_visited s')"
    "\<forall>i. Suc i < length xs \<longrightarrow> previousNode (cell (b_grid s') (xs ! Suc i)) = Some (xs ! i)"
    using bfs_walk [OF inv invP invN ev] by blast
  have ne: "xs \<noteq> []" using xs(2) by auto
  have s0: "previousNode (cell (b_grid s') startNode) = None"
    using invN unfolding bfs_invN_def by blast
  have len: "length xs = Suc (lev endNode)"
    using bfs_chain_length [OF Lv s0 ne xs(3,5,6)] xs(4) by simp
  have opt: "\<forall>P. path_between g startNode endNode P \<longrightarrow> Suc (lev endNode) \<le> length P"
    using Lv ev unfolding bfs_levels_def by blast
  have 3: "path_between g startNode endNode xs"
    using xs(2,3,4) by (simp add: path_between_def)
  show ?thesis
    using w vne le xs(1) 3 opt len
    by (intro exI [of _ s'] exI [of _ xs]) simp
qed

lemma bfs_wall_start:
  assumes v: "valid_grid g" and s: "in_grid g start" and w: "isWall (cell g start)"
  shows "bfs_while e (bfs_init g start) = Some ((bfs_init g start)\<lparr>b_queue := []\<rparr>)"
proof -
  have c: "bfs_current (bfs_init g start) = start"
    by (simp add: bfs_current_def bfs_init_def)
  have t: "tl (b_queue (bfs_init g start)) = []" by (simp add: bfs_init_def)
  have "isWall (cell (b_grid (bfs_init g start)) start)"
    using w by (simp add: bfs_init_cell [OF v s])
  then have "bfs_body e (bfs_init g start) = Continue ((bfs_init g start)\<lparr>b_queue := []\<rparr>)"
    by (simp add: bfs_body_eq c t)
  moreover have "b_queue (bfs_init g start) \<noteq> []" by (simp add: bfs_init_def)
  ultimately have "bfs_while e (bfs_init g start) = bfs_while e ((bfs_init g start)\<lparr>b_queue := []\<rparr>)"
    by (subst bfs_while.simps) simp
  also have "\<dots> = Some ((bfs_init g start)\<lparr>b_queue := []\<rparr>)"
    by (subst bfs_while.simps) simp
  finally show ?thesis .
qed

lemma astar_wall_start:
  assumes v: "valid_grid g" and s: "in_grid g start" and w: "isWall (cell g start)"
  shows "astar_while e (astar_init g start e) = Some ((astar_init g start e)\<lparr>a_openList := []\<rparr>)"
proof -
  have c: "astar_current (astar_init g start e) = start"
    by (simp add: astar_current_def astar_init_def)
  have p: "astar_popped (astar_init g start e) = (astar_init g start e)\<lparr>a_openList := []\<rparr>"
    by (simp add: astar_popped_def astar_init_def)
  have "isWall (cell (a_grid (astar_init g start e)) start)"
    using w by (simp add: astar_init_cell [OF v s])
  then have "astar_body e (astar_init g start e) = Continue ((astar_init g start e)\<lparr>a_openList := []\<rparr>)"
    by (simp add: astar_body_eq c p)
  moreover have "a_openList (astar_init g start e) \<noteq> []" by (simp add: astar_init_def)
  ultimately have "astar_while e (astar_init g start e)
      = astar_while e ((astar_init g start e)\<lparr>a_openList := []\<rparr>)"
    by (subst astar_while.simps) simp
  also have "\<dots> = Some ((astar_init g start e)\<lparr>a_openList := []\<rparr>)"
    by (subst astar_while.simps) simp
  finally show ?thesis .
qed

section \<open>Breadth-first search: the path with the fewest edges and the unreachable end\<close>

lemma no_path_to_wall: "isWall (cell g e) \<Longrightarrow> \<not> path_between g s e P"
  using is_path_last_passable [of g P] by (auto simp: path_between_def passable_def)

lemma no_path_from_wall: "isWall (cell g s) \<Longrightarrow> \<not> path_between g s e P"
  using is_path_hd_passable [of g P] by (auto simp: path_between_def passable_def)

lemma example_grid_unvisited:
  "all_cells (\<lambda>n. \<not> isVisited n \<and> previousNode n = None) example_grid"
  by (simp add: example_grid_def all_cells_def createNode_def)

text \<open>
  C2. On a rectangular grid with every \<^verbatim>\<open>isVisited\<close> false and every
  \<^verbatim>\<open>previousNode\<close> null: if some path of cells that are no walls leads from start to
  end, then \<^verbatim>\<open>bfs\<close> returns with end as the last visited cell, and the walk along
  \<^verbatim>\<open>previousNode\<close> from end returns a path from start to end that has no more cells,
  hence no more edges, than any path from start to end.
\<close>

theorem bfs_finds_fewest_edges_path:
  assumes "valid_grid g"
    and "all_cells (\<lambda>n. \<not> isVisited n \<and> previousNode n = None) g"
    and "\<exists>P. path_between g startNode endNode P"
  shows "\<exists>vis g' path. bfs g startNode endNode = Some (vis, g') \<and> vis \<noteq> [] \<and> last vis = endNode
    \<and> getNodesInShortestPathOrder g' endNode = Some path
    \<and> path_between g startNode endNode path
    \<and> (\<forall>P. path_between g startNode endNode P \<longrightarrow> length path \<le> length P)"
proof -
  obtain s' xs where w: "bfs_while endNode (bfs_init g startNode) = Some s'"
    and vis: "b_visited s' \<noteq> []" "last (b_visited s') = endNode"
    and walk: "\<forall>acc. path_while (b_grid s') (Some endNode) acc = Some (xs @ acc)"
    and path: "path_between g startNode endNode xs"
    and opt: "\<forall>P. path_between g startNode endNode P \<longrightarrow> length xs \<le> length P"
    using bfs_min_path [OF assms] by blast
  have 1: "bfs g startNode endNode = Some (b_visited s', b_grid s')"
    by (simp add: bfs_def w)
  have 2: "getNodesInShortestPathOrder (b_grid s') endNode = Some xs"
    using walk by (simp add: getNodesInShortestPathOrder_def)
  show ?thesis
    using 1 2 vis path opt
    by (intro exI [of _ "b_visited s'"] exI [of _ "b_grid s'"] exI [of _ xs]) simp
qed

theorem bfs_finds_fewest_edges_path_witness:
  "valid_grid example_grid
   \<and> all_cells (\<lambda>n. \<not> isVisited n \<and> previousNode n = None) example_grid
   \<and> path_between example_grid (0, 0) (0, 2) [(0, 0), (0, 1), (0, 2)]
   \<and> (\<exists>vis g' path. bfs example_grid (0, 0) (0, 2) = Some (vis, g') \<and> vis \<noteq> []
        \<and> last vis = (0, 2)
        \<and> getNodesInShortestPathOrder g' (0, 2) = Some path
        \<and> path_between example_grid (0, 0) (0, 2) path
        \<and> (\<forall>P. path_between example_grid (0, 0) (0, 2) P \<longrightarrow> length path \<le> length P))"
proof -
  have "\<exists>P. path_between example_grid (0, 0) (0, 2) P"
    using example_grid_path by blast
  then show ?thesis
    using bfs_finds_fewest_edges_path [OF example_grid_valid example_grid_unvisited,
        of "(0, 0)" "(0, 2)"]
      example_grid_valid example_grid_unvisited example_grid_path
    by blast
qed

text \<open>
  C3, with the hypothesis it needs. On a rectangular grid with every \<^verbatim>\<open>isVisited\<close>
  false and a start cell of the grid: if no path of cells that are no walls leads from
  start to end, then the loop of \<^verbatim>\<open>bfs\<close> ends with its queue empty, and the
  returned cells are exactly the cells that a path from start reaches, each once, end not
  among them, in an order in which the fewest number of edges from start never decreases.
  If start is a wall, \<^verbatim>\<open>bfs\<close> and \<^verbatim>\<open>astar\<close> both return the empty sequence (for
  this part \<^verbatim>\<open>isVisited\<close> may hold anything).
\<close>

theorem bfs_unreachable_end_and_wall_start:
  assumes v: "valid_grid g" and s: "in_grid g startNode"
  shows "(all_cells (\<lambda>n. \<not> isVisited n) g \<and> (\<forall>P. \<not> path_between g startNode endNode P) \<longrightarrow>
      (\<exists>s'. bfs_while endNode (bfs_init g startNode) = Some s' \<and> b_queue s' = []
         \<and> bfs g startNode endNode = Some (b_visited s', b_grid s')
         \<and> set (b_visited s') = {p. \<exists>P. path_between g startNode p P}
         \<and> distinct (b_visited s') \<and> endNode \<notin> set (b_visited s')
         \<and> (\<exists>dist. sorted (map dist (b_visited s'))
              \<and> (\<forall>p \<in> set (b_visited s').
                    (\<exists>P. path_between g startNode p P \<and> length P = Suc (dist p))
                  \<and> (\<forall>P. path_between g startNode p P \<longrightarrow> Suc (dist p) \<le> length P)))))
    \<and> (isWall (cell g startNode) \<longrightarrow>
         (\<exists>g'. bfs g startNode endNode = Some ([], g'))
       \<and> (\<exists>g'. astar g startNode endNode = Some ([], g')))"
proof (intro conjI impI)
  assume w: "isWall (cell g startNode)"
  show "\<exists>g'. bfs g startNode endNode = Some ([], g')"
    by (simp add: bfs_def bfs_wall_start [OF v s w]) (simp add: bfs_init_def)
  show "\<exists>g'. astar g startNode endNode = Some ([], g')"
    by (simp add: astar_def astar_wall_start [OF v s w]) (simp add: astar_init_def)
next
  assume a: "all_cells (\<lambda>n. \<not> isVisited n) g \<and> (\<forall>P. \<not> path_between g startNode endNode P)"
  then have rv: "all_cells (\<lambda>n. \<not> isVisited n) g"
    and np: "\<And>P. \<not> path_between g startNode endNode P" by blast+
  show "\<exists>s'. bfs_while endNode (bfs_init g startNode) = Some s' \<and> b_queue s' = []
         \<and> bfs g startNode endNode = Some (b_visited s', b_grid s')
         \<and> set (b_visited s') = {p. \<exists>P. path_between g startNode p P}
         \<and> distinct (b_visited s') \<and> endNode \<notin> set (b_visited s')
         \<and> (\<exists>dist. sorted (map dist (b_visited s'))
              \<and> (\<forall>p \<in> set (b_visited s').
                    (\<exists>P. path_between g startNode p P \<and> length P = Suc (dist p))
                  \<and> (\<forall>P. path_between g startNode p P \<longrightarrow> Suc (dist p) \<le> length P)))"
  proof (cases "isWall (cell g startNode)")
    case True
    define s' where "s' = (bfs_init g startNode)\<lparr>b_queue := []\<rparr>"
    have w: "bfs_while endNode (bfs_init g startNode) = Some s'"
      unfolding s'_def by (rule bfs_wall_start [OF v s True])
    have vis: "b_visited s' = []" and q: "b_queue s' = []"
      by (simp_all add: s'_def bfs_init_def)
    have "{p. \<exists>P. path_between g startNode p P} = {}"
      using no_path_from_wall [OF True] by blast
    then show ?thesis
      using w vis q by (intro exI [of _ s']) (simp add: bfs_def)
  next
    case False
    then have ps: "passable g startNode" using s by (simp add: passable_def)
    obtain s' lev where w: "bfs_while endNode (bfs_init g startNode) = Some s'"
      and inv: "bfs_inv0 g s'" and invP: "bfs_invP g startNode s'"
      and Lv: "bfs_levels g startNode s' lev"
      and kind: "b_queue s' = [] \<and> endNode \<notin> set (b_visited s') \<and>
            (\<forall>p P. path_between g startNode p P \<longrightarrow> p \<in> set (b_visited s'))
          \<or> b_visited s' \<noteq> [] \<and> last (b_visited s') = endNode"
      using bfs_run [OF v ps rv, of endNode] by blast
    have reach: "\<And>p. p \<in> set (b_visited s') \<Longrightarrow>
        \<exists>xs. path_between g startNode p xs \<and> length xs = Suc (lev p)"
      using bfs_visited_reachable [OF inv invP Lv] by blast
    have nl: "\<not> (b_visited s' \<noteq> [] \<and> last (b_visited s') = endNode)"
    proof
      assume "b_visited s' \<noteq> [] \<and> last (b_visited s') = endNode"
      then have "endNode \<in> set (b_visited s')" using last_in_set by metis
      then show False using reach np by blast
    qed
    then have q: "b_queue s' = []" and ev: "endNode \<notin> set (b_visited s')"
      and all: "\<And>p P. path_between g startNode p P \<Longrightarrow> p \<in> set (b_visited s')"
      using kind by blast+
    have set: "set (b_visited s') = {p. \<exists>P. path_between g startNode p P}"
      using all reach by blast
    have d: "distinct (b_visited s')"
      using inv unfolding bfs_inv0_def by simp
    have srt: "sorted (map lev (b_visited s'))"
      and opt: "\<And>p P. p \<in> set (b_visited s') \<Longrightarrow> path_between g startNode p P
          \<Longrightarrow> Suc (lev p) \<le> length P"
      using Lv unfolding bfs_levels_def by blast+
    have ord: "\<exists>dist. sorted (map dist (b_visited s'))
              \<and> (\<forall>p \<in> set (b_visited s').
                    (\<exists>P. path_between g startNode p P \<and> length P = Suc (dist p))
                  \<and> (\<forall>P. path_between g startNode p P \<longrightarrow> Suc (dist p) \<le> length P))"
      using srt reach opt by (intro exI [of _ lev]) blast
    have b: "bfs g startNode endNode = Some (b_visited s', b_grid s')"
      by (simp add: bfs_def w)
    show ?thesis
      using w q b set d ev ord by (intro exI [of _ s']) blast
  qed
qed

theorem bfs_needs_isVisited_reset:
  "valid_grid stale_visited_grid \<and> in_grid stale_visited_grid (0, 0)
   \<and> (\<forall>P. \<not> path_between stale_visited_grid (0, 0) (0, 2) P)
   \<and> map_option fst (bfs stale_visited_grid (0, 0) (0, 2)) = Some [(0, 0)]
   \<and> path_between stale_visited_grid (0, 0) (0, 1) [(0, 0), (0, 1)]
   \<and> (0, 1) \<notin> set [(0, 0) :: ref]"
proof -
  have 1: "valid_grid stale_visited_grid \<and> in_grid stale_visited_grid (0, 0)"
    by (simp add: stale_visited_grid_def valid_grid_def in_grid_def)
  have "isWall (cell stale_visited_grid (0, 2))"
    by (simp add: stale_visited_grid_def cell_def createNode_def)
  then have 2: "\<forall>P. \<not> path_between stale_visited_grid (0, 0) (0, 2) P"
    using no_path_to_wall by blast
  have 3: "map_option fst (bfs stale_visited_grid (0, 0) (0, 2)) = Some [(0, 0)]"
    by code_simp
  have 4: "path_between stale_visited_grid (0, 0) (0, 1) [(0, 0), (0, 1)]"
    by (simp add: path_between_def passable_def in_grid_def adjacent_def cell_def
        stale_visited_grid_def createNode_def)
  show ?thesis using 1 2 3 4 by simp
qed

theorem bfs_unreachable_end_and_wall_start_witness:
  "valid_grid example_grid \<and> in_grid example_grid (0, 0)
   \<and> all_cells (\<lambda>n. \<not> isVisited n) example_grid
   \<and> (\<forall>P. \<not> path_between example_grid (0, 0) (1, 1) P)
   \<and> (\<exists>s'. bfs_while (1, 1) (bfs_init example_grid (0, 0)) = Some s' \<and> b_queue s' = []
         \<and> bfs example_grid (0, 0) (1, 1) = Some (b_visited s', b_grid s')
         \<and> set (b_visited s') = {p. \<exists>P. path_between example_grid (0, 0) p P}
         \<and> distinct (b_visited s') \<and> (1, 1) \<notin> set (b_visited s')
         \<and> (\<exists>dist. sorted (map dist (b_visited s'))
              \<and> (\<forall>p \<in> set (b_visited s').
                    (\<exists>P. path_between example_grid (0, 0) p P \<and> length P = Suc (dist p))
                  \<and> (\<forall>P. path_between example_grid (0, 0) p P \<longrightarrow> Suc (dist p) \<le> length P))))
   \<and> in_grid example_grid (1, 1) \<and> isWall (cell example_grid (1, 1))
   \<and> (\<exists>g'. bfs example_grid (1, 1) (0, 2) = Some ([], g'))
   \<and> (\<exists>g'. astar example_grid (1, 1) (0, 2) = Some ([], g'))"
proof -
  have i0: "in_grid example_grid (0, 0)" and i1: "in_grid example_grid (1, 1)"
    by (simp_all add: in_grid_def example_grid_def)
  have w: "isWall (cell example_grid (1, 1))"
    by (simp add: example_grid_def cell_def createNode_def)
  have rv: "all_cells (\<lambda>n. \<not> isVisited n) example_grid"
    by (simp add: example_grid_def all_cells_def createNode_def)
  have np: "\<forall>P. \<not> path_between example_grid (0, 0) (1, 1) P"
    using no_path_to_wall [OF w] by blast
  show ?thesis
    using bfs_unreachable_end_and_wall_start [OF example_grid_valid i0, of "(1, 1)"]
      bfs_unreachable_end_and_wall_start [OF example_grid_valid i1, of "(0, 2)"]
      example_grid_valid i0 i1 w rv np
    by blast
qed

section \<open>Breadth-first search and A* search on unit weights\<close>

lemma unit_weights_ok:
  assumes "all_cells (\<lambda>n. \<not> isWall n \<longrightarrow> weight n = Fin 1) g"
  shows "weights_ok g"
  using assms unfolding weights_ok_def all_cells_def by auto

lemma unit_path_cost:
  assumes U: "all_cells (\<lambda>n. \<not> isWall n \<longrightarrow> weight n = Fin 1) g" and v: "valid_grid g"
  shows "is_path g P \<Longrightarrow> path_cost g P = Fin (of_nat (length P - 1))"
proof (induction P rule: rev_induct)
  case Nil
  then show ?case by simp
next
  case (snoc y P)
  show ?case
  proof (cases "P = []")
    case True
    then show ?thesis by simp
  next
    case False
    then have P: "is_path g P" and y: "passable g y"
      using snoc.prems by (simp_all add: is_path_snoc)
    have "weight (cell g y) = Fin 1"
      using all_cells_cell [OF U v, of y] y by (simp add: passable_def)
    moreover have "path_cost g P = Fin (of_nat (length P - 1))" using snoc.IH [OF P] .
    moreover have "0 < length P" using False by simp
    ultimately show ?thesis
      by (simp add: path_cost_snoc [OF False] of_nat_diff)
  qed
qed

text \<open>
  C6. On a rectangular grid whose cells that are no walls all have weight 1, with every
  \<^verbatim>\<open>isVisited\<close> false, every \<^verbatim>\<open>previousNode\<close> null and every \<^verbatim>\<open>distance\<close>
  \<^verbatim>\<open>Infinity\<close>: if some path leads from start to end, then \<^verbatim>\<open>bfs\<close> and \<^verbatim>\<open>astar\<close>,
  each run on the grid as given, both return, both predecessor walks from end return a
  path from start to end, and the number of edges of the path after \<^verbatim>\<open>bfs\<close> is the cost
  of the path after \<^verbatim>\<open>astar\<close>, which is the \<^verbatim>\<open>distance\<close> that \<^verbatim>\<open>astar\<close> left on
  end.
\<close>

theorem bfs_edges_equal_astar_cost_on_unit_weights:
  assumes "valid_grid g"
    and "all_cells (\<lambda>n. \<not> isWall n \<longrightarrow> weight n = Fin 1) g"
    and "all_cells (\<lambda>n. \<not> isVisited n \<and> previousNode n = None \<and> distance n = Infinity) g"
    and "\<exists>P. path_between g startNode endNode P"
  shows "\<exists>visb gb pathb visa ga patha.
      bfs g startNode endNode = Some (visb, gb)
    \<and> getNodesInShortestPathOrder gb endNode = Some pathb
    \<and> path_between g startNode endNode pathb
    \<and> astar g startNode endNode = Some (visa, ga)
    \<and> getNodesInShortestPathOrder ga endNode = Some patha
    \<and> path_between g startNode endNode patha
    \<and> Fin (of_nat (length pathb - 1)) = path_cost g patha
    \<and> path_cost g patha = distance (cell ga endNode)"
proof -
  have rb: "all_cells (\<lambda>n. \<not> isVisited n \<and> previousNode n = None) g"
    and ra: "all_cells (\<lambda>n. distance n = Infinity \<and> previousNode n = None) g"
    using assms(3) unfolding all_cells_def by blast+
  have W: "weights_ok g" using assms(2) by (rule unit_weights_ok)
  obtain sb pb where wb: "bfs_while endNode (bfs_init g startNode) = Some sb"
    and walkb: "\<forall>acc. path_while (b_grid sb) (Some endNode) acc = Some (pb @ acc)"
    and pathb: "path_between g startNode endNode pb"
    and optb: "\<forall>P. path_between g startNode endNode P \<longrightarrow> length pb \<le> length P"
    using bfs_min_path [OF assms(1) rb assms(4)] by blast
  obtain sa pa where wa: "astar_while endNode (astar_init g startNode endNode) = Some sa"
    and walka: "\<forall>acc. path_while (a_grid sa) (Some endNode) acc = Some (pa @ acc)"
    and patha: "path_between g startNode endNode pa"
    and costa: "path_cost g pa = distance (cell (a_grid sa) endNode)"
    and opta: "\<forall>P. path_between g startNode endNode P \<longrightarrow>
          distance (cell (a_grid sa) endNode) \<le> path_cost g P"
    using astar_min_path [OF assms(1) W ra assms(4)] by blast
  have b: "bfs g startNode endNode = Some (b_visited sb, b_grid sb)"
    "getNodesInShortestPathOrder (b_grid sb) endNode = Some pb"
    using wb walkb by (simp_all add: bfs_def getNodesInShortestPathOrder_def)
  have a: "astar g startNode endNode = Some (a_visited sa, a_grid sa)"
    "getNodesInShortestPathOrder (a_grid sa) endNode = Some pa"
    using wa walka by (simp_all add: astar_def getNodesInShortestPathOrder_def)
  have ca: "path_cost g pa = Fin (of_nat (length pa - 1))"
    and cb: "path_cost g pb = Fin (of_nat (length pb - 1))"
    using unit_path_cost [OF assms(2,1)] patha pathb by (simp_all add: path_between_def)
  have "path_cost g pa \<le> path_cost g pb" using opta pathb costa by simp
  then have "length pa - 1 \<le> length pb - 1" using ca cb by simp
  moreover have "length pb \<le> length pa" using optb patha by blast
  ultimately have "length pb - 1 = length pa - 1" by simp
  then have eq: "Fin (of_nat (length pb - 1)) = path_cost g pa" using ca by simp
  show ?thesis
    using b pathb a patha eq costa by blast
qed

theorem bfs_edges_equal_astar_cost_on_unit_weights_witness:
  "valid_grid unit_grid
   \<and> all_cells (\<lambda>n. \<not> isWall n \<longrightarrow> weight n = Fin 1) unit_grid
   \<and> all_cells (\<lambda>n. \<not> isVisited n \<and> previousNode n = None \<and> distance n = Infinity) unit_grid
   \<and> path_between unit_grid (0, 0) (1, 2) [(0, 0), (0, 1), (0, 2), (1, 2)]
   \<and> (\<exists>visb gb pathb visa ga patha.
        bfs unit_grid (0, 0) (1, 2) = Some (visb, gb)
      \<and> getNodesInShortestPathOrder gb (1, 2) = Some pathb
      \<and> path_between unit_grid (0, 0) (1, 2) pathb
      \<and> astar unit_grid (0, 0) (1, 2) = Some (visa, ga)
      \<and> getNodesInShortestPathOrder ga (1, 2) = Some patha
      \<and> path_between unit_grid (0, 0) (1, 2) patha
      \<and> Fin (of_nat (length pathb - 1)) = path_cost unit_grid patha
      \<and> path_cost unit_grid patha = distance (cell ga (1, 2)))"
proof -
  have 1: "valid_grid unit_grid"
    by (simp add: unit_grid_def valid_grid_def)
  have 2: "all_cells (\<lambda>n. \<not> isWall n \<longrightarrow> weight n = Fin 1) unit_grid"
    by (simp add: unit_grid_def all_cells_def createNode_def)
  have 3: "all_cells (\<lambda>n. \<not> isVisited n \<and> previousNode n = None \<and> distance n = Infinity) unit_grid"
    by (simp add: unit_grid_def all_cells_def createNode_def)
  have 4: "path_between unit_grid (0, 0) (1, 2) [(0, 0), (0, 1), (0, 2), (1, 2)]"
    by (simp add: path_between_def passable_def in_grid_def adjacent_def cell_def
        unit_grid_def createNode_def)
  then have "\<exists>P. path_between unit_grid (0, 0) (1, 2) P" by blast
  then show ?thesis
    using bfs_edges_equal_astar_cost_on_unit_weights [OF 1 2 3, of "(0, 0)" "(1, 2)"] 1 2 3 4
    by blast
qed

section \<open>Predecessor links after a search\<close>










lemma example_grid_cells: "in_grid example_grid (0, 0)" "in_grid example_grid (0, 2)"
  by (simp_all add: in_grid_def example_grid_def)






section \<open>Addition of doubles: sums that are not rounded\<close>

lemma half_int_iff: "half_int d \<longleftrightarrow> (\<exists>m::int. 2 * d = of_int m)"
  unfolding half_int_def by (metis floor_of_int)

lemma round_half_even_of_int [simp]: "round_half_even (of_int m) = m"
  by (simp add: round_half_even_def)

lemma double_exponent_bounds:
  assumes "0 < x" and "x < 2 ^ 52"
  shows "- 1022 \<le> double_exponent x" and "double_exponent x \<le> 51"
proof -
  show "- 1022 \<le> double_exponent x" by (simp add: double_exponent_def)
  show "double_exponent x \<le> 51"
  proof (cases "1 \<le> x")
    case True
    have "\<lfloor>x\<rfloor> < 2 ^ 52" using assms(2) by (simp add: floor_less_iff)
    then have "bitlen \<lfloor>x\<rfloor> \<le> 52" by (simp add: bitlen_le_iff_power)
    then show ?thesis using True by (simp add: double_exponent_def)
  next
    case False
    have "0 \<le> bitlen (\<lceil>1 / x\<rceil> - 1)" by (rule bitlen_nonneg)
    then show ?thesis using False by (simp add: double_exponent_def)
  qed
qed

lemma round_double_exact:
  assumes h: "half_int x" and p: "0 \<le> x" and b: "x < 2 ^ 52"
  shows "round_double x = Fin x"
proof (cases "x = 0")
  case True
  then show ?thesis by (simp add: round_double_def)
next
  case False
  then have pos: "0 < x" using p by simp
  define k where "k = nat (52 - double_exponent x)"
  have e: "- 1022 \<le> double_exponent x" "double_exponent x \<le> 51"
    using double_exponent_bounds [OF pos b] by simp_all
  have k: "\<not> 0 \<le> double_exponent x - 52" "nat (- (double_exponent x - 52)) = k" "1 \<le> k"
    using e by (simp_all add: k_def)
  have ax: "\<bar>x\<bar> = x" using p by simp
  have q: "double_quantum \<bar>x\<bar> = 1 / 2 ^ k"
    unfolding ax double_quantum_def Let_def using k(1,2) by simp
  obtain j where j: "k = Suc j" using k(3) by (cases k) auto
  obtain m where m: "2 * x = of_int m" using h unfolding half_int_iff by blast
  have "x / (1 / 2 ^ k) = x * 2 ^ k" by simp
  also have "\<dots> = (2 * x) * 2 ^ j" by (simp add: j)
  also have "\<dots> = of_int (m * 2 ^ j)" by (simp add: m)
  finally have y: "x / double_quantum \<bar>x\<bar> = of_int (m * 2 ^ j)" by (simp add: q)
  have "of_int (round_half_even (x / double_quantum \<bar>x\<bar>)) * double_quantum \<bar>x\<bar>
      = (x / double_quantum \<bar>x\<bar>) * double_quantum \<bar>x\<bar>"
    unfolding y round_half_even_of_int ..
  also have "\<dots> = x" by (simp add: q)
  finally have r: "of_int (round_half_even (x / double_quantum \<bar>x\<bar>)) * double_quantum \<bar>x\<bar> = x" .
  have "(2::rat) ^ 52 \<le> 2 ^ 1024" by (rule power_increasing) simp_all
  then have "\<not> 2 ^ 1024 \<le> \<bar>x\<bar>" using p b by simp
  then show ?thesis
    using False unfolding round_double_def Let_def r by simp
qed

lemma half_int_add: "half_int a \<Longrightarrow> half_int b \<Longrightarrow> half_int (a + b)"
proof -
  assume "half_int a" and "half_int b"
  then obtain m n :: int where "2 * a = of_int m" "2 * b = of_int n"
    unfolding half_int_iff by blast
  then have "2 * (a + b) = of_int (m + n)" by simp
  then show ?thesis unfolding half_int_iff by blast
qed

lemma half_int_of_int [simp]: "half_int (of_int m)"
proof -
  have "2 * (of_int m :: rat) = of_int (2 * m)" by simp
  then show ?thesis unfolding half_int_iff by blast
qed

lemma double_add_exact:
  assumes "half_int a" and "half_int b" and "0 \<le> a" and "0 \<le> b" and "a + b < 2 ^ 52"
  shows "double_add (Fin a) (Fin b) = js_add (Fin a) (Fin b)"
  using round_double_exact [OF half_int_add [OF assms(1,2)]] assms(3,4,5) by simp

lemma double_exponent_binade:
  assumes "2 ^ e \<le> x" and "x < 2 ^ Suc e"
  shows "double_exponent x = int e"
proof -
  have one: "1 \<le> x"
  proof -
    have "(1::rat) \<le> 2 ^ e" by simp
    then show ?thesis using assms(1) by linarith
  qed
  have "(2::rat) ^ e = of_int (2 ^ e)" "(2::rat) ^ Suc e = of_int (2 ^ Suc e)" by simp_all
  then have lo: "2 ^ e \<le> \<lfloor>x\<rfloor>" and hi: "\<lfloor>x\<rfloor> < 2 ^ Suc e"
    using assms by (simp_all add: le_floor_iff floor_less_iff)
  have n: "nat (int (Suc e)) = Suc e" "nat (int (Suc e)) - 1 = e" by simp_all
  have "bitlen \<lfloor>x\<rfloor> \<le> int (Suc e)"
    unfolding bitlen_le_iff_power n using hi by simp
  moreover have "int (Suc e) \<le> bitlen \<lfloor>x\<rfloor>"
    unfolding bitlen_ge_iff_power n using lo by simp
  ultimately have "bitlen \<lfloor>x\<rfloor> = int e + 1" by simp
  then show ?thesis using one by (simp add: double_exponent_def)
qed

lemma round_double_binade:
  assumes "2 ^ e \<le> x" and "x < 2 ^ Suc e"
  shows "round_double x =
     (let q = (if 52 \<le> e then 2 ^ (e - 52) else 1 / 2 ^ (52 - e));
          r = of_int (round_half_even (x / q)) * q
      in if 2 ^ 1024 \<le> \<bar>r\<bar> then Infinity else Fin r)"
proof -
  have pos: "0 < x"
  proof -
    have "(0::rat) < 2 ^ e" by simp
    then show ?thesis using assms(1) by linarith
  qed
  then have ax: "\<bar>x\<bar> = x" by simp
  have q: "double_quantum \<bar>x\<bar> = (if 52 \<le> e then 2 ^ (e - 52) else 1 / 2 ^ (52 - e))"
    unfolding ax double_quantum_def double_exponent_binade [OF assms] Let_def
    by (auto simp: nat_diff_distrib)
  show ?thesis
    using pos unfolding round_double_def q by simp
qed

lemma round_half_even_numeral:
  "round_half_even (numeral a / numeral b) =
     (let f = numeral a div numeral b; r = numeral a mod (numeral b :: int)
      in if 2 * r < numeral b then f else if numeral b < 2 * r then f + 1
         else if even f then f else f + 1)"
proof -
  define A B :: int where "A = numeral a" and "B = numeral b"
  have B: "0 < B" by (simp add: B_def)
  have x: "(numeral a :: rat) / numeral b = of_int A / of_int B" by (simp add: A_def B_def)
  have f: "\<lfloor>(of_int A :: rat) / of_int B\<rfloor> = A div B" by (rule floor_divide_of_int_eq)
  have "A = A div B * B + A mod B" by simp
  then have "(of_int A :: rat) = of_int (A div B * B + A mod B)" by (rule arg_cong)
  also have "\<dots> = of_int (A div B) * of_int B + of_int (A mod B)"
    by (simp only: of_int_add of_int_mult)
  finally have "(of_int A :: rat) / of_int B = of_int (A div B) + of_int (A mod B) / of_int B"
    using B by (simp add: field_simps)
  then have d: "(of_int A :: rat) / of_int B - of_int (A div B) = of_int (A mod B) / of_int B"
    by simp
  have c1: "(of_int (A mod B) :: rat) / of_int B < 1 / 2 \<longleftrightarrow> 2 * (A mod B) < B"
  proof -
    have "(of_int (A mod B) :: rat) / of_int B < 1 / 2 \<longleftrightarrow> (of_int (2 * (A mod B)) :: rat) < of_int B"
      using B by (simp add: field_simps)
    then show ?thesis by (simp only: of_int_less_iff)
  qed
  have c2: "1 / 2 < (of_int (A mod B) :: rat) / of_int B \<longleftrightarrow> B < 2 * (A mod B)"
  proof -
    have "1 / 2 < (of_int (A mod B) :: rat) / of_int B \<longleftrightarrow> (of_int B :: rat) < of_int (2 * (A mod B))"
      using B by (simp add: field_simps)
    then show ?thesis by (simp only: of_int_less_iff)
  qed
  show ?thesis
    unfolding x round_half_even_def Let_def f d c1 c2 A_def [symmetric] B_def [symmetric] ..
qed

lemma round_half_even_numeral_int [simp]: "round_half_even (numeral a) = numeral a"
  using round_half_even_of_int [of "numeral a"] by simp

lemma astar_relax_with_js_add: "astar_relax_with js_add = astar_relax"
  by (intro ext) (simp add: astar_relax_with_def astar_relax_def)

lemma astar_body_with_js_add: "astar_body_with js_add = astar_body"
  by (intro ext) (simp add: astar_body_with_def astar_body_def astar_relax_with_js_add Let_def)

lemma astar_body_with_eq:
  "astar_body_with add e s =
     (if isWall (cell (a_grid s) (astar_current s)) \<or> astar_current s \<in> a_closedSet s
      then Continue (astar_popped s)
      else if distance (cell (a_grid s) (astar_current s)) = Infinity then Return (astar_popped s)
      else if astar_current s = e then Return (astar_closed s)
      else Continue (fold (astar_relax_with add e (astar_current s))
              (getNeighbors (astar_current s) (a_grid s)) (astar_closed s)))"
  by (simp add: astar_body_with_def astar_current_def astar_popped_def astar_closed_def Let_def)

lemma astar_relax_with_exact:
  assumes "n \<notin> a_closedSet s \<Longrightarrow> \<not> isWall (cell (a_grid s) n) \<Longrightarrow>
      add (distance (cell (a_grid s) c)) (weight_or_1 (weight (cell (a_grid s) n)))
        = js_add (distance (cell (a_grid s) c)) (weight_or_1 (weight (cell (a_grid s) n)))
      \<and> add (js_add (distance (cell (a_grid s) c)) (weight_or_1 (weight (cell (a_grid s) n))))
            (heuristic n e)
        = js_add (js_add (distance (cell (a_grid s) c)) (weight_or_1 (weight (cell (a_grid s) n))))
            (heuristic n e)"
  shows "astar_relax_with add e c n s = astar_relax e c n s"
  using assms by (simp add: astar_relax_with_def astar_relax_def Let_def)

lemma fold_astar_relax_with_exact:
  assumes "valid_grid (a_grid s)" and "\<forall>n \<in> set ns. in_grid (a_grid s) n"
    and "c \<in> a_closedSet s"
    and "\<forall>n \<in> set ns. \<not> isWall (cell (a_grid s) n) \<longrightarrow>
      add (distance (cell (a_grid s) c)) (weight_or_1 (weight (cell (a_grid s) n)))
        = js_add (distance (cell (a_grid s) c)) (weight_or_1 (weight (cell (a_grid s) n)))
      \<and> add (js_add (distance (cell (a_grid s) c)) (weight_or_1 (weight (cell (a_grid s) n))))
            (heuristic n e)
        = js_add (js_add (distance (cell (a_grid s) c)) (weight_or_1 (weight (cell (a_grid s) n))))
            (heuristic n e)"
  shows "fold (astar_relax_with add e c) ns s = fold (astar_relax e c) ns s"
  using assms
proof (induction ns arbitrary: s)
  case Nil
  then show ?case by simp
next
  case (Cons n ns)
  define s' where "s' = astar_relax e c n s"
  have 1: "astar_relax_with add e c n s = s'"
    unfolding s'_def using Cons.prems(4) by (intro astar_relax_with_exact) simp
  have ign: "in_grid (a_grid s) n" using Cons.prems(2) by simp
  have cl: "a_closedSet s' = a_closedSet s"
    by (simp add: s'_def astar_relax_eq)
  have cellf: "cell (a_grid s') p =
      (if p = n \<and> improves (a_grid s) (a_closedSet s) c n then relaxed (a_grid s) e c n
       else cell (a_grid s) p)" for p
    by (simp add: s'_def astar_relax_eq cell_update_cell [OF Cons.prems(1) ign])
  have nc: "improves (a_grid s) (a_closedSet s) c n \<Longrightarrow> n \<noteq> c"
    using Cons.prems(3) by (auto simp: improves_def)
  have cc: "cell (a_grid s') c = cell (a_grid s) c"
    using nc by (auto simp: cellf)
  have st: "isWall (cell (a_grid s') p) = isWall (cell (a_grid s) p)"
    "weight (cell (a_grid s') p) = weight (cell (a_grid s) p)" for p
    by (simp_all add: cellf relaxed_def)
  have v': "valid_grid (a_grid s')" and ig': "in_grid (a_grid s') p = in_grid (a_grid s) p" for p
    using Cons.prems(1) by (simp_all add: s'_def astar_relax_eq)
  have "fold (astar_relax_with add e c) ns s' = fold (astar_relax e c) ns s'"
  proof (rule Cons.IH [OF v'])
    show "\<forall>n \<in> set ns. in_grid (a_grid s') n" using Cons.prems(2) by (simp add: ig')
    show "c \<in> a_closedSet s'" using Cons.prems(3) by (simp add: cl)
    show "\<forall>n \<in> set ns. \<not> isWall (cell (a_grid s') n) \<longrightarrow>
      add (distance (cell (a_grid s') c)) (weight_or_1 (weight (cell (a_grid s') n)))
        = js_add (distance (cell (a_grid s') c)) (weight_or_1 (weight (cell (a_grid s') n)))
      \<and> add (js_add (distance (cell (a_grid s') c)) (weight_or_1 (weight (cell (a_grid s') n))))
            (heuristic n e)
        = js_add (js_add (distance (cell (a_grid s') c)) (weight_or_1 (weight (cell (a_grid s') n))))
            (heuristic n e)"
      using Cons.prems(4) by (simp add: cc st)
  qed
  then show ?case by (simp add: 1 s'_def [symmetric])
qed

lemma card_in_grid: "card {p. in_grid g p} = length g * length (g ! 0)"
proof -
  have "{p. in_grid g p} = {..<length g} \<times> {..<length (g ! 0)}"
    by (auto simp: in_grid_def)
  then show ?thesis by (simp add: card_cartesian_product)
qed

lemma hdist_bound:
  assumes "in_grid g p" and "in_grid g e"
  shows "hdist p e \<le> of_nat (length g + length (g ! 0))"
proof -
  have "\<bar>int (fst p) - int (fst e)\<bar> + \<bar>int (snd p) - int (snd e)\<bar>
      \<le> int (length g + length (g ! 0))"
    using assms by (auto simp: in_grid_def abs_if)
  then have "(of_int (\<bar>int (fst p) - int (fst e)\<bar> + \<bar>int (snd p) - int (snd e)\<bar>) :: rat)
      \<le> of_int (int (length g + length (g ! 0)))"
    by (simp only: of_int_le_iff)
  then show ?thesis by (simp add: hdist_def)
qed

lemma half_int_hdist: "half_int (hdist p e)"
  unfolding hdist_def by (rule half_int_of_int)

lemma half_weights_cell:
  assumes "half_weights W g" and "valid_grid g" and "passable g p"
  obtains w where "weight (cell g p) = Fin w" and "1 \<le> w" and "w \<le> of_nat W" and "half_int w"
proof -
  have "case weight (cell g p) of Fin w \<Rightarrow> 1 \<le> w \<and> w \<le> of_nat W \<and> half_int w | Infinity \<Rightarrow> False"
    using all_cells_cell [OF assms(1) [unfolded half_weights_def] assms(2)] assms(3)
    by (simp add: passable_def)
  then show ?thesis using that by (cases "weight (cell g p)") auto
qed

lemma half_weights_ok:
  assumes "half_weights W g"
  shows "weights_ok g"
  unfolding weights_ok_def all_cells_def
proof (intro ballI impI)
  fix r n assume "r \<in> set g" and "n \<in> set r" and nw: "\<not> isWall n"
  then have "case weight n of Fin w \<Rightarrow> 1 \<le> w \<and> w \<le> of_nat W \<and> half_int w | Infinity \<Rightarrow> False"
    using assms unfolding half_weights_def all_cells_def by blast
  then show "Fin 1 \<le> weight n \<and> weight n \<noteq> Infinity"
    by (cases "weight n") auto
qed

section \<open>A* search with the addition of doubles: runs without rounding\<close>

lemma astar_invB_init:
  assumes "valid_grid g" and "in_grid g start"
  shows "astar_invB W (astar_init g start e)"
proof -
  have "distance (cell (a_grid (astar_init g start e)) start) = Fin 0"
    by (simp add: astar_init_cell [OF assms])
  moreover have "half_int 0" using half_int_of_int [of 0] by simp
  ultimately show ?thesis
    unfolding astar_invB_def by (simp add: astar_init_def)
qed

lemma astar_invB_step:
  assumes inv: "astar_inv0 g0 e s" and invB: "astar_invB W s"
    and hw: "half_weights W g0" and v0: "valid_grid g0"
    and ne: "a_openList s \<noteq> []" and b: "astar_body e s = Continue s'"
  shows "astar_invB W s'"
proof -
  define cur where "cur = astar_current s"
  define rest where "rest = a_openList (astar_popped s)"
  define g where "g = a_grid s"
  have st: "same_static g0 g" and og: "\<forall>p \<in> set (a_openList s). in_grid g0 p"
    and cv: "a_closedSet s = set (a_visited s)"
    using inv unfolding astar_inv0_def g_def by blast+
  have B: "\<And>p. p \<in> set (a_openList s) \<union> a_closedSet s \<Longrightarrow>
        \<exists>d. distance (cell g p) = Fin d \<and> 0 \<le> d \<and> half_int d
           \<and> d \<le> of_nat (W * card (a_closedSet s))"
    using invB unfolding astar_invB_def g_def by blast
  have fc: "finite (a_closedSet s)" by (simp add: cv)
  note pf = astar_pop_facts [OF ne, folded cur_def rest_def]
  have co: "cur \<in> set (a_openList s)" by (rule pf(1))
  have so: "set (a_openList s) = insert cur (set rest)" by (rule pf(2))
  have v: "valid_grid g" using st by (rule same_static_valid)
  have cg0: "in_grid g0 cur" using og co by blast
  have cgs: "in_grid g cur" using cg0 st by (simp add: same_static_in_grid)
  show ?thesis
  proof (cases "isWall (cell g cur) \<or> cur \<in> a_closedSet s")
    case True
    then have s': "s' = astar_popped s"
      using b by (simp add: astar_body_eq cur_def g_def)
    show ?thesis
      unfolding astar_invB_def s' using B so
      by (simp add: rest_def [symmetric] g_def)
  next
    case False
    then have nw: "\<not> isWall (cell g cur)" and nc: "cur \<notin> a_closedSet s" by auto
    have s': "s' = astar_expanded e s"
      using b False by (simp add: astar_body_eq cur_def g_def split: if_splits)
    define ns where "ns = getNeighbors cur g"
    define imp where "imp = improves g (insert cur (a_closedSet s)) cur"
    note ef = astar_expanded_facts [OF v [unfolded g_def] cgs [unfolded g_def cur_def], of e,
        folded cur_def g_def, folded ns_def imp_def rest_def s']
    have cellf: "cell (a_grid s') p = (if p \<in> set ns \<and> imp p then relaxed g e cur p
           else if p = cur then (cell g p)\<lparr>isVisited := True\<rparr> else cell g p)" for p
      by (rule ef(6))
    have op: "a_openList s' = rest @ filter (\<lambda>p. imp p \<and> p \<notin> set rest) ns"
      by (rule ef(7))
    have nsg: "\<forall>p \<in> set ns. in_grid g0 p"
      using getNeighbors_in_grid [OF cgs] st by (auto simp: ns_def same_static_in_grid)
    have card: "card (a_closedSet s') = Suc (card (a_closedSet s))"
      using fc nc by (simp add: ef(1))
    obtain dc where dc: "distance (cell g cur) = Fin dc" "0 \<le> dc" "half_int dc"
      "dc \<le> of_nat (W * card (a_closedSet s))"
      using B [of cur] co by auto
    have "\<exists>d. distance (cell (a_grid s') p) = Fin d \<and> 0 \<le> d \<and> half_int d
           \<and> d \<le> of_nat (W * card (a_closedSet s'))"
      if p: "p \<in> set (a_openList s') \<union> a_closedSet s'" for p
    proof (cases "p \<in> set ns \<and> imp p")
      case True
      then have pg: "in_grid g0 p" and pw: "\<not> isWall (cell g p)"
        using nsg by (auto simp: imp_def improves_def)
      then have "passable g0 p"
        using same_static_isWall [OF st pg] by (simp add: passable_def)
      then obtain w where w: "weight (cell g0 p) = Fin w" "1 \<le> w" "w \<le> of_nat W" "half_int w"
        using half_weights_cell [OF hw v0] by blast
      have wg: "weight (cell g p) = Fin w"
        using same_static_weight [OF st pg] w(1) by simp
      have "w \<noteq> 0" using w(2) by auto
      then have t: "tentative g cur p = Fin (dc + w)"
        by (simp add: tentative_def dc(1) wg weight_or_1_def)
      have "dc + w \<le> of_nat (W * card (a_closedSet s)) + of_nat W"
        using dc(4) w(3) by simp
      also have "\<dots> = of_nat (W * card (a_closedSet s'))"
        by (simp add: card)
      finally have le: "dc + w \<le> of_nat (W * card (a_closedSet s'))" .
      have "0 \<le> dc + w" using dc(2) w(2) by simp
      then show ?thesis
        using True t le half_int_add [OF dc(3) w(4)]
        by (simp add: cellf relaxed_def)
    next
      case False
      then have "p \<in> set (a_openList s) \<union> a_closedSet s"
        using p so by (auto simp: op ef(1))
      then obtain d where d: "distance (cell g p) = Fin d" "0 \<le> d" "half_int d"
        "d \<le> of_nat (W * card (a_closedSet s))"
        using B [of p] by auto
      have "(of_nat (W * card (a_closedSet s)) :: rat) \<le> of_nat (W * card (a_closedSet s'))"
        unfolding of_nat_le_iff by (simp add: card)
      then have "d \<le> of_nat (W * card (a_closedSet s'))" using d(4) by linarith
      then show ?thesis
        using False d(1,2,3) by (auto simp: cellf)
    qed
    then show ?thesis unfolding astar_invB_def by blast
  qed
qed

lemma astar_invB_return:
  assumes inv: "astar_inv0 g0 e s" and invB: "astar_invB W s"
    and ne: "a_openList s \<noteq> []" and b: "astar_body e s = Return s'"
  shows "astar_invB W s'"
proof -
  have cv: "a_closedSet s = set (a_visited s)"
    using inv unfolding astar_inv0_def by blast
  have B: "\<And>p. p \<in> set (a_openList s) \<union> a_closedSet s \<Longrightarrow>
        \<exists>d. distance (cell (a_grid s) p) = Fin d \<and> 0 \<le> d \<and> half_int d
           \<and> d \<le> of_nat (W * card (a_closedSet s))"
    using invB unfolding astar_invB_def by blast
  note r = astar_return_step [OF inv ne b]
  have fc: "finite (a_closedSet s)" by (simp add: cv)
  have card: "card (a_closedSet s') = Suc (card (a_closedSet s))"
    using fc r(3) by (simp add: r(5))
  have "\<exists>d. distance (cell (a_grid s') p) = Fin d \<and> 0 \<le> d \<and> half_int d
           \<and> d \<le> of_nat (W * card (a_closedSet s'))"
    if p: "p \<in> set (a_openList s') \<union> a_closedSet s'" for p
  proof -
    have "p \<in> set (a_openList s) \<union> a_closedSet s"
      using p r(2,4,5) by auto
    then obtain d where d: "distance (cell (a_grid s) p) = Fin d" "0 \<le> d" "half_int d"
      "d \<le> of_nat (W * card (a_closedSet s))"
      using B [of p] by auto
    have "(of_nat (W * card (a_closedSet s)) :: rat) \<le> of_nat (W * card (a_closedSet s'))"
      unfolding of_nat_le_iff by (simp add: card)
    then have "d \<le> of_nat (W * card (a_closedSet s'))" using d(4) by linarith
    then show ?thesis using d(1,2,3) by (auto simp: r(7))
  qed
  then show ?thesis unfolding astar_invB_def by blast
qed

lemma astar_body_with_double:
  assumes inv: "astar_inv0 g0 e s" and invB: "astar_invB W s"
    and hw: "half_weights W g0" and v0: "valid_grid g0" and eg: "in_grid g0 e"
    and bound: "W * (length g0 * length (g0 ! 0)) + length g0 + length (g0 ! 0) < 2 ^ 52"
    and ne: "a_openList s \<noteq> []"
  shows "astar_body_with double_add e s = astar_body e s"
proof (cases "isWall (cell (a_grid s) (astar_current s)) \<or> astar_current s \<in> a_closedSet s")
  case True
  then show ?thesis by (simp add: astar_body_with_eq astar_body_eq)
next
  case False
  define cur where "cur = astar_current s"
  define g where "g = a_grid s"
  define ns where "ns = getNeighbors cur g"
  have nc: "cur \<notin> a_closedSet s" using False by (simp add: cur_def)
  have st: "same_static g0 g" and og: "\<forall>p \<in> set (a_openList s). in_grid g0 p"
    and cv: "a_closedSet s = set (a_visited s)"
    and cg: "\<forall>p \<in> a_closedSet s. in_grid g0 p \<and> \<not> isWall (cell g0 p)"
    using inv unfolding astar_inv0_def g_def by blast+
  have co: "cur \<in> set (a_openList s)"
    using astar_pop_facts(1) [OF ne] by (simp add: cur_def)
  have v: "valid_grid g" using st by (rule same_static_valid)
  have cg0: "in_grid g0 cur" using og co by blast
  have cgs: "in_grid g cur" using cg0 st by (simp add: same_static_in_grid)
  obtain dc where dc: "distance (cell g cur) = Fin dc" "0 \<le> dc" "half_int dc"
    "dc \<le> of_nat (W * card (a_closedSet s))"
    using invB co unfolding astar_invB_def g_def by blast
  have fc: "finite (a_closedSet s)" by (simp add: cv)
  have "insert cur (a_closedSet s) \<subseteq> {p. in_grid g0 p}"
    using cg cg0 by auto
  then have "card (insert cur (a_closedSet s)) \<le> card {p. in_grid g0 p}"
    by (intro card_mono finite_in_grid)
  then have cb: "Suc (card (a_closedSet s)) \<le> length g0 * length (g0 ! 0)"
    using fc nc by (simp add: card_in_grid)
  have g2: "a_grid (astar_closed s) = update_cell g cur (\<lambda>n. n\<lparr>isVisited := True\<rparr>)"
    by (simp add: g_def cur_def)
  have cell2: "cell (a_grid (astar_closed s)) p =
      (if p = cur then (cell g cur)\<lparr>isVisited := True\<rparr> else cell g p)" for p
    unfolding g2 by (rule cell_update_cell [OF v cgs])
  have nsg: "\<forall>p \<in> set ns. in_grid g0 p"
    using getNeighbors_in_grid [OF cgs] st by (auto simp: ns_def same_static_in_grid)
  have F: "fold (astar_relax_with double_add e cur) ns (astar_closed s)
      = fold (astar_relax e cur) ns (astar_closed s)"
  proof (rule fold_astar_relax_with_exact)
    show "valid_grid (a_grid (astar_closed s))" unfolding g2 using v by simp
    show "\<forall>n \<in> set ns. in_grid (a_grid (astar_closed s)) n"
      unfolding g2 using nsg st by (simp add: same_static_in_grid)
    show "cur \<in> a_closedSet (astar_closed s)" by (simp add: cur_def)
    show "\<forall>n \<in> set ns. \<not> isWall (cell (a_grid (astar_closed s)) n) \<longrightarrow>
      double_add (distance (cell (a_grid (astar_closed s)) cur))
          (weight_or_1 (weight (cell (a_grid (astar_closed s)) n)))
        = js_add (distance (cell (a_grid (astar_closed s)) cur))
          (weight_or_1 (weight (cell (a_grid (astar_closed s)) n)))
      \<and> double_add (js_add (distance (cell (a_grid (astar_closed s)) cur))
              (weight_or_1 (weight (cell (a_grid (astar_closed s)) n)))) (heuristic n e)
        = js_add (js_add (distance (cell (a_grid (astar_closed s)) cur))
              (weight_or_1 (weight (cell (a_grid (astar_closed s)) n)))) (heuristic n e)"
    proof (intro ballI impI)
      fix n assume n: "n \<in> set ns" and nw2: "\<not> isWall (cell (a_grid (astar_closed s)) n)"
      have ncur: "n \<noteq> cur" using n not_self_neighbor [of cur g] unfolding ns_def by blast
      have ng: "in_grid g0 n" using nsg n by blast
      have "\<not> isWall (cell g n)" using nw2 [unfolded cell2] ncur by simp
      then have "passable g0 n"
        using same_static_isWall [OF st ng] ng by (simp add: passable_def)
      then obtain w where w: "weight (cell g0 n) = Fin w" "1 \<le> w" "w \<le> of_nat W" "half_int w"
        using half_weights_cell [OF hw v0] by blast
      have wg: "weight (cell (a_grid (astar_closed s)) n) = Fin w"
        unfolding cell2 using same_static_weight [OF st ng] w(1) ncur by simp
      have dg: "distance (cell (a_grid (astar_closed s)) cur) = Fin dc"
        unfolding cell2 by (simp add: dc(1))
      have w1: "weight_or_1 (Fin w) = Fin w" using w(2) by (auto simp: weight_or_1_def)
      have h: "hdist n e \<le> of_nat (length g0 + length (g0 ! 0))"
        by (rule hdist_bound [OF ng eg])
      have "dc + w + hdist n e
          \<le> of_nat (W * card (a_closedSet s)) + of_nat W + of_nat (length g0 + length (g0 ! 0))"
        using dc(4) w(3) h by linarith
      also have "\<dots> = of_nat (W * Suc (card (a_closedSet s)) + length g0 + length (g0 ! 0))"
        by simp
      also have "\<dots> \<le> of_nat (W * (length g0 * length (g0 ! 0)) + length g0 + length (g0 ! 0))"
      proof -
        have "W * Suc (card (a_closedSet s)) \<le> W * (length g0 * length (g0 ! 0))"
          using cb by (rule mult_le_mono2)
        then show ?thesis unfolding of_nat_le_iff by linarith
      qed
      also have "\<dots> < of_nat (2 ^ 52)"
        unfolding of_nat_less_iff using bound .
      finally have tot: "dc + w + hdist n e < 2 ^ 52" by simp
      have "0 \<le> hdist n e" by (rule hdist_nonneg)
      then have sm: "dc + w < 2 ^ 52" using tot by linarith
      have w0: "0 \<le> w" using w(2) by simp
      have 1: "double_add (Fin dc) (Fin w) = js_add (Fin dc) (Fin w)"
        by (rule double_add_exact [OF dc(3) w(4) dc(2) w0 sm])
      have p2: "0 \<le> dc + w" using dc(2) w0 by simp
      have 2: "double_add (Fin (dc + w)) (Fin (hdist n e)) = js_add (Fin (dc + w)) (Fin (hdist n e))"
        by (rule double_add_exact [OF half_int_add [OF dc(3) w(4)] half_int_hdist p2 hdist_nonneg tot])
      show "double_add (distance (cell (a_grid (astar_closed s)) cur))
          (weight_or_1 (weight (cell (a_grid (astar_closed s)) n)))
        = js_add (distance (cell (a_grid (astar_closed s)) cur))
          (weight_or_1 (weight (cell (a_grid (astar_closed s)) n)))
      \<and> double_add (js_add (distance (cell (a_grid (astar_closed s)) cur))
              (weight_or_1 (weight (cell (a_grid (astar_closed s)) n)))) (heuristic n e)
        = js_add (js_add (distance (cell (a_grid (astar_closed s)) cur))
              (weight_or_1 (weight (cell (a_grid (astar_closed s)) n)))) (heuristic n e)"
        unfolding dg wg w1 heuristic_Fin using 1 2 by simp
    qed
  qed
  show ?thesis
    unfolding astar_body_with_eq astar_body_eq astar_expanded_def
    using F by (simp add: cur_def ns_def g_def)
qed

lemma astar_while_with_double:
  assumes hw: "half_weights W g0" and v0: "valid_grid g0" and eg: "in_grid g0 e"
    and bound: "W * (length g0 * length (g0 ! 0)) + length g0 + length (g0 ! 0) < 2 ^ 52"
  shows "astar_inv0 g0 e s \<Longrightarrow> astar_invB W s \<Longrightarrow>
    astar_while_with double_add e s = astar_while e s"
proof (induction s rule: wf_induct_rule [OF wf_astar_rel [of g0]])
  case (1 s)
  show ?case
  proof (cases "a_openList s = []")
    case True
    then show ?thesis
      by (subst astar_while_with.simps, subst astar_while.simps) simp
  next
    case False
    have be: "astar_body_with double_add e s = astar_body e s"
      by (rule astar_body_with_double [OF "1.prems" hw v0 eg bound False])
    show ?thesis
    proof (cases "astar_body e s")
      case (Continue s')
      have "astar_while_with double_add e s' = astar_while e s'"
        using "1.IH" [of s'] astar_inv0_step [OF "1.prems"(1) False Continue]
          astar_invB_step [OF "1.prems" hw v0 False Continue]
        by blast
      then show ?thesis
        using False be Continue
        by (subst astar_while_with.simps, subst astar_while.simps) simp
    next
      case (Return s')
      then show ?thesis
        using False be
        by (subst astar_while_with.simps, subst astar_while.simps) simp
    qed
  qed
qed

lemma astar_reaches_with_double:
  assumes hw: "half_weights W g0" and v0: "valid_grid g0" and eg: "in_grid g0 e"
    and bound: "W * (length g0 * length (g0 ! 0)) + length g0 + length (g0 ! 0) < 2 ^ 52"
  shows "astar_reaches_with double_add e s t \<Longrightarrow> astar_inv0 g0 e s \<Longrightarrow> astar_invB W s \<Longrightarrow>
    astar_reaches e s t \<and> astar_inv0 g0 e t \<and> astar_invB W t"
proof (induction rule: astar_reaches_with.induct)
  case reaches_with_start
  then show ?case by (simp add: astar_reaches.reaches_start)
next
  case (reaches_with_step t u)
  then have r: "astar_reaches e s t" and i: "astar_inv0 g0 e t" and B: "astar_invB W t"
    by blast+
  have b: "astar_body e t = Continue u"
    using astar_body_with_double [OF i B hw v0 eg bound reaches_with_step.hyps(2)]
      reaches_with_step.hyps(3) by simp
  show ?case
    using astar_reaches.reaches_step [OF r reaches_with_step.hyps(2) b]
      astar_inv0_step(1) [OF i reaches_with_step.hyps(2) b]
      astar_invB_step [OF i B hw v0 reaches_with_step.hyps(2) b]
    by blast
qed

section \<open>A* search with the addition of doubles: the minimum-cost path and the order of selection\<close>

lemma huge_pos [simp]: "0 < huge" "huge \<noteq> 0" "1 \<le> huge"
proof -
  have "(1::rat) \<le> 2 ^ 1023" by (rule one_le_power) simp
  then show "0 < huge" "huge \<noteq> 0" "1 \<le> huge" by (simp_all add: huge_def)
qed

lemma double_add_0_huge: "double_add (Fin 0) (Fin huge) = Fin huge"
  unfolding huge_def
  by (simp, subst round_double_binade [of 1023]) (simp_all add: round_half_even_numeral Let_def)

lemma double_add_huge_1: "double_add (Fin huge) (Fin 1) = Fin huge"
  unfolding huge_def
  by (simp, subst round_double_binade [of 1023]) (simp_all add: round_half_even_numeral Let_def)

lemma double_add_huge_huge: "double_add (Fin huge) (Fin huge) = Infinity"
  unfolding huge_def
  by (simp, subst round_double_binade [of 1024]) (simp_all add: round_half_even_numeral Let_def)

lemmas run_defs = astar_body_with_def astar_relax_with_def astar_init_def Let_def
  update_cell_def cell_def getNeighbors_def heuristic_def weight_or_1_def createNode_def

lemma round_double_122: "round_double (61 / 50) = Fin (5494391545392005 / 4503599627370496)"
  by (subst round_double_binade [of 0])
    (simp_all add: round_half_even_numeral Let_def)

lemma double_add_0_122: "double_add (Fin 0) (Fin (5494391545392005 / 4503599627370496))
    = Fin (5494391545392005 / 4503599627370496)"
  by (simp, subst round_double_binade [of 0]) (simp_all add: round_half_even_numeral Let_def)

lemma double_add_122_7: "double_add (Fin (5494391545392005 / 4503599627370496)) (Fin 7)
    = Fin (4627448617123185 / 562949953421312)"
  by (simp, subst round_double_binade [of 3]) (simp_all add: round_half_even_numeral Let_def)

lemma double_add_122_1: "double_add (Fin (5494391545392005 / 4503599627370496)) (Fin 1)
    = Fin (2499497793190625 / 1125899906842624)"
  by (simp, subst round_double_binade [of 1]) (simp_all add: round_half_even_numeral Let_def)

lemma double_add_222_6: "double_add (Fin (2499497793190625 / 1125899906842624)) (Fin 6)
    = Fin (289215538570199 / 35184372088832)"
  by (simp, subst round_double_binade [of 3]) (simp_all add: round_half_even_numeral Let_def)

lemma overflow_run:
  "map_option fst (astar_double overflow_row (0, 0) (0, 2)) = Some [(0, 0), (0, 1)]"
  apply (simp add: astar_double_def)
  apply (subst astar_while_with.simps)
  apply (simp add: run_defs overflow_row_def double_add_0_huge double_add_huge_1
      double_add_huge_huge del: double_add.simps)
  apply (subst astar_while_with.simps)
  apply (simp add: run_defs overflow_row_def double_add_0_huge double_add_huge_1
      double_add_huge_huge del: double_add.simps)
  apply (subst astar_while_with.simps)
  apply (simp add: run_defs overflow_row_def double_add_0_huge double_add_huge_1
      double_add_huge_huge del: double_add.simps)
  done

text \<open>
  C1, with the hypothesis it needs. The run is the run with the addition of doubles. On
  a rectangular grid whose cells that are no walls have a weight that is a multiple of
  0.5, at least 1 and at most \<open>W\<close>, where \<open>W \<times> rows \<times> columns + rows + columns < 2\<^sup>5\<^sup>2\<close>,
  with every \<^verbatim>\<open>distance\<close> \<^verbatim>\<open>Infinity\<close> and every \<^verbatim>\<open>previousNode\<close> null: if some path
  of cells that are no walls leads from start to end by steps up, down, left and right,
  then \<^verbatim>\<open>astar\<close> returns, the last cell of its visitation order is end, the
  predecessor walk from end returns a path from start to end, the cost of that path is
  the \<^verbatim>\<open>distance\<close> the run left on end, and no path from start to end costs less.
  (That start and end are cells of the grid and no walls follows from the path; that
  they differ is not needed.)
\<close>

theorem astar_finds_minimum_cost_path:
  assumes "valid_grid g" and "half_weights W g"
    and "W * (length g * length (g ! 0)) + length g + length (g ! 0) < 2 ^ 52"
    and "all_cells (\<lambda>n. distance n = Infinity \<and> previousNode n = None) g"
    and "\<exists>P. path_between g startNode endNode P"
  shows "\<exists>vis g' path. astar_double g startNode endNode = Some (vis, g') \<and> vis \<noteq> []
    \<and> last vis = endNode
    \<and> getNodesInShortestPathOrder g' endNode = Some path
    \<and> path_between g startNode endNode path
    \<and> path_cost g path = distance (cell g' endNode)
    \<and> (\<forall>P. path_between g startNode endNode P \<longrightarrow> path_cost g path \<le> path_cost g P)"
proof -
  obtain P0 where P0: "path_between g startNode endNode P0" using assms(5) by blast
  then have sg: "in_grid g startNode" and eg: "in_grid g endNode"
    using is_path_hd_passable [of g P0] is_path_last_passable [of g P0]
    by (auto simp: path_between_def passable_def)
  have W: "weights_ok g" using assms(2) by (rule half_weights_ok)
  obtain s' xs where w: "astar_while endNode (astar_init g startNode endNode) = Some s'"
    and vis: "a_visited s' \<noteq> []" "last (a_visited s') = endNode"
    and walk: "\<forall>acc. path_while (a_grid s') (Some endNode) acc = Some (xs @ acc)"
    and path: "path_between g startNode endNode xs"
    and cost: "path_cost g xs = distance (cell (a_grid s') endNode)"
    and opt: "\<forall>P. path_between g startNode endNode P \<longrightarrow>
          distance (cell (a_grid s') endNode) \<le> path_cost g P"
    using astar_min_path [OF assms(1) W assms(4,5)] by blast
  have "astar_while_with double_add endNode (astar_init g startNode endNode)
      = astar_while endNode (astar_init g startNode endNode)"
    by (rule astar_while_with_double [OF assms(2,1) eg assms(3)
          astar_inv0_init [OF assms(1) sg] astar_invB_init [OF assms(1) sg]])
  then have 1: "astar_double g startNode endNode = Some (a_visited s', a_grid s')"
    by (simp add: astar_double_def w)
  have 2: "getNodesInShortestPathOrder (a_grid s') endNode = Some xs"
    using walk by (simp add: getNodesInShortestPathOrder_def)
  show ?thesis
    using 1 2 vis path cost opt
    by (intro exI [of _ "a_visited s'"] exI [of _ "a_grid s'"] exI [of _ xs]) simp
qed

lemma example_grid_half_weights: "half_weights 3 example_grid"
  by (simp add: half_weights_def all_cells_def example_grid_def createNode_def half_int_def)

lemma example_grid_bound:
  "3 * (length example_grid * length (example_grid ! 0)) + length example_grid
     + length (example_grid ! 0) < 2 ^ 52"
  by (simp add: example_grid_def)

theorem astar_finds_minimum_cost_path_witness:
  "valid_grid example_grid \<and> half_weights 3 example_grid
   \<and> 3 * (length example_grid * length (example_grid ! 0)) + length example_grid
       + length (example_grid ! 0) < 2 ^ 52
   \<and> all_cells (\<lambda>n. distance n = Infinity \<and> previousNode n = None) example_grid
   \<and> path_between example_grid (0, 0) (0, 2) [(0, 0), (0, 1), (0, 2)]
   \<and> (\<exists>vis g' path. astar_double example_grid (0, 0) (0, 2) = Some (vis, g') \<and> vis \<noteq> []
        \<and> last vis = (0, 2)
        \<and> getNodesInShortestPathOrder g' (0, 2) = Some path
        \<and> path_between example_grid (0, 0) (0, 2) path
        \<and> path_cost example_grid path = distance (cell g' (0, 2))
        \<and> (\<forall>P. path_between example_grid (0, 0) (0, 2) P \<longrightarrow>
               path_cost example_grid path \<le> path_cost example_grid P))"
proof -
  have p: "\<exists>P. path_between example_grid (0, 0) (0, 2) P"
    using example_grid_path by blast
  note t = astar_finds_minimum_cost_path [OF example_grid_valid example_grid_half_weights
      example_grid_bound example_grid_reset p]
  show ?thesis
    by (intro conjI)
      (rule example_grid_valid example_grid_half_weights example_grid_bound
        example_grid_reset example_grid_path t)+
qed

theorem astar_double_overflow_misses_end:
  "valid_grid overflow_row \<and> weights_ok overflow_row
   \<and> all_cells (\<lambda>n. distance n = Infinity \<and> previousNode n = None) overflow_row
   \<and> path_between overflow_row (0, 0) (0, 2) [(0, 0), (0, 1), (0, 2)]
   \<and> map_option fst (astar_double overflow_row (0, 0) (0, 2)) = Some [(0, 0), (0, 1)]"
proof -
  have 1: "valid_grid overflow_row"
    by (simp add: overflow_row_def valid_grid_def)
  have 2: "weights_ok overflow_row"
    by (simp add: overflow_row_def weights_ok_def all_cells_def createNode_def)
  have 3: "all_cells (\<lambda>n. distance n = Infinity \<and> previousNode n = None) overflow_row"
    by (simp add: overflow_row_def all_cells_def createNode_def)
  have 4: "path_between overflow_row (0, 0) (0, 2) [(0, 0), (0, 1), (0, 2)]"
    by (simp add: path_between_def passable_def in_grid_def adjacent_def cell_def
        overflow_row_def createNode_def)
  show ?thesis
    by (intro conjI) (rule 1 2 3 4 overflow_run)+
qed

text \<open>
  C5, with the hypothesis it needs. The run is the run with the addition of doubles. On
  a rectangular grid whose cells that are no walls have a weight that is a multiple of
  0.5, at least 1 and at most \<open>W\<close>, where \<open>W \<times> rows \<times> columns + rows + columns < 2\<^sup>5\<^sup>2\<close>,
  with every \<^verbatim>\<open>distance\<close> \<^verbatim>\<open>Infinity\<close> and every \<^verbatim>\<open>previousNode\<close> null, in a run
  of \<^verbatim>\<open>astar\<close> from a cell of the grid to a cell of the grid: if the iteration that
  starts in state \<open>t\<close> selects a node (takes it from the open list and appends it to the
  visitation order) and a later iteration, starting in state \<open>t'\<close>, selects a node,
  then the \<^verbatim>\<open>totalCost\<close> of the first node when it is selected is at most the
  \<^verbatim>\<open>totalCost\<close> of the second when it is selected. \<open>astar_current s\<close> is the node the
  iteration that starts in \<open>s\<close> takes from the open list.
\<close>

theorem astar_selection_cost_monotone:
  assumes "valid_grid g" and "half_weights W g"
    and "W * (length g * length (g ! 0)) + length g + length (g ! 0) < 2 ^ 52"
    and "all_cells (\<lambda>n. distance n = Infinity \<and> previousNode n = None) g"
    and "in_grid g startNode" and "in_grid g endNode"
    and "astar_reaches_with double_add endNode (astar_init g startNode endNode) t"
    and "astar_selects t"
    and "astar_body_with double_add endNode t = Continue t1"
    and "astar_reaches_with double_add endNode t1 t'" and "astar_selects t'"
  shows "totalCost (cell (a_grid t) (astar_current t))
      \<le> totalCost (cell (a_grid t') (astar_current t'))"
proof -
  have W: "weights_ok g" using assms(2) by (rule half_weights_ok)
  note tr = astar_reaches_with_double [OF assms(2,1,6,3)]
  have t: "astar_reaches endNode (astar_init g startNode endNode) t"
    "astar_inv0 g endNode t" "astar_invB W t"
    using tr [OF assms(7) astar_inv0_init [OF assms(1,5)] astar_invB_init [OF assms(1,5)]]
    by blast+
  have ne: "a_openList t \<noteq> []" using assms(8) by (simp add: astar_selects_def)
  have b: "astar_body endNode t = Continue t1"
    using astar_body_with_double [OF t(2,3) assms(2,1,6,3) ne] assms(9) by simp
  have t1: "astar_inv0 g endNode t1" "astar_invB W t1"
    using astar_inv0_step(1) [OF t(2) ne b] astar_invB_step [OF t(2,3) assms(2,1) ne b]
    by blast+
  have t': "astar_reaches endNode t1 t'"
    using tr [OF assms(10) t1] by blast
  show ?thesis
    by (rule astar_selection_monotone [OF assms(1) W assms(4,5) t(1) assms(8) b t' assms(11)])
qed

theorem astar_selection_cost_monotone_witness:
  "valid_grid example_grid \<and> half_weights 3 example_grid
   \<and> 3 * (length example_grid * length (example_grid ! 0)) + length example_grid
       + length (example_grid ! 0) < 2 ^ 52
   \<and> all_cells (\<lambda>n. distance n = Infinity \<and> previousNode n = None) example_grid
   \<and> in_grid example_grid (0, 0) \<and> in_grid example_grid (0, 2)
   \<and> astar_reaches_with double_add (0, 2) (astar_init example_grid (0, 0) (0, 2))
       (astar_init example_grid (0, 0) (0, 2))
   \<and> astar_selects (astar_init example_grid (0, 0) (0, 2))
   \<and> astar_body_with double_add (0, 2) (astar_init example_grid (0, 0) (0, 2)) =
       Continue (astar_expanded (0, 2) (astar_init example_grid (0, 0) (0, 2)))
   \<and> astar_reaches_with double_add (0, 2)
       (astar_expanded (0, 2) (astar_init example_grid (0, 0) (0, 2)))
       (astar_expanded (0, 2) (astar_init example_grid (0, 0) (0, 2)))
   \<and> astar_selects (astar_expanded (0, 2) (astar_init example_grid (0, 0) (0, 2)))
   \<and> totalCost (cell (a_grid (astar_init example_grid (0, 0) (0, 2)))
         (astar_current (astar_init example_grid (0, 0) (0, 2))))
     \<le> totalCost (cell (a_grid (astar_expanded (0, 2) (astar_init example_grid (0, 0) (0, 2))))
         (astar_current (astar_expanded (0, 2) (astar_init example_grid (0, 0) (0, 2)))))"
proof -
  have ne: "a_openList (astar_init example_grid (0, 0) (0, 2)) \<noteq> []"
    by (simp add: astar_init_def)
  have b: "astar_body_with double_add (0, 2) (astar_init example_grid (0, 0) (0, 2)) =
       Continue (astar_expanded (0, 2) (astar_init example_grid (0, 0) (0, 2)))"
    using astar_body_with_double [OF astar_inv0_init [OF example_grid_valid example_grid_cells(1)]
        astar_invB_init [OF example_grid_valid example_grid_cells(1)]
        example_grid_half_weights example_grid_valid example_grid_cells(2) example_grid_bound ne]
      example_init_body
    by simp
  note r0 = astar_reaches_with.reaches_with_start
    [of double_add "(0, 2)" "astar_init example_grid (0, 0) (0, 2)"]
  note r1 = astar_reaches_with.reaches_with_start
    [of double_add "(0, 2)" "astar_expanded (0, 2) (astar_init example_grid (0, 0) (0, 2))"]
  note t = astar_selection_cost_monotone [OF example_grid_valid example_grid_half_weights
      example_grid_bound example_grid_reset example_grid_cells r0 example_init_selects b r1
      example_expanded_selects]
  show ?thesis
    by (intro conjI)
      (rule example_grid_valid example_grid_half_weights example_grid_bound
        example_grid_reset example_grid_cells r0 example_init_selects b r1
        example_expanded_selects t)+
qed

lemmas row_defs = run_defs rounding_row_def round_double_122 double_add_0_122
  double_add_122_7 double_add_122_1 double_add_222_6

theorem astar_double_selection_cost_decreases:
  "valid_grid rounding_row \<and> weights_ok rounding_row
   \<and> all_cells (\<lambda>n. distance n = Infinity \<and> previousNode n = None) rounding_row
   \<and> in_grid rounding_row (0, 0) \<and> in_grid rounding_row (0, 8)
   \<and> (\<exists>t t1 t'.
        astar_reaches_with double_add (0, 8) (astar_init rounding_row (0, 0) (0, 8)) t
      \<and> astar_selects t \<and> astar_current t = (0, 1)
      \<and> totalCost (cell (a_grid t) (0, 1)) = Fin (4627448617123185 / 562949953421312)
      \<and> astar_body_with double_add (0, 8) t = Continue t1
      \<and> astar_reaches_with double_add (0, 8) t1 t'
      \<and> astar_selects t' \<and> astar_current t' = (0, 2)
      \<and> totalCost (cell (a_grid t') (0, 2)) = Fin (289215538570199 / 35184372088832)
      \<and> totalCost (cell (a_grid t') (astar_current t'))
          < totalCost (cell (a_grid t) (astar_current t)))"
proof -
  define s0 where "s0 = astar_init rounding_row (0, 0) (0, 8)"
  define s1 where "s1 = (case astar_body_with double_add (0, 8) s0 of
      Continue u \<Rightarrow> u | Return u \<Rightarrow> u)"
  define s2 where "s2 = (case astar_body_with double_add (0, 8) s1 of
      Continue u \<Rightarrow> u | Return u \<Rightarrow> u)"
  have 1: "valid_grid rounding_row"
    by (simp add: rounding_row_def valid_grid_def)
  have 2: "weights_ok rounding_row"
    by (simp add: rounding_row_def weights_ok_def all_cells_def createNode_def round_double_122)
  have 3: "all_cells (\<lambda>n. distance n = Infinity \<and> previousNode n = None) rounding_row"
    by (simp add: rounding_row_def all_cells_def createNode_def)
  have 4: "in_grid rounding_row (0, 0)" "in_grid rounding_row (0, 8)"
    by (simp_all add: in_grid_def rounding_row_def)
  have b0: "astar_body_with double_add (0, 8) s0 = Continue s1"
    unfolding s1_def s0_def by (simp add: row_defs del: double_add.simps)
  have n0: "a_openList s0 \<noteq> []" by (simp add: s0_def astar_init_def)
  have c1: "astar_current s1 = (0, 1)"
    unfolding s1_def s0_def astar_current_def by (simp add: row_defs del: double_add.simps)
  have sel1: "astar_selects s1"
    unfolding astar_selects_def astar_current_def s1_def s0_def
    by (simp add: row_defs del: double_add.simps)
  have f1: "totalCost (cell (a_grid s1) (0, 1)) = Fin (4627448617123185 / 562949953421312)"
    unfolding s1_def s0_def by (simp add: row_defs del: double_add.simps)
  have b1: "astar_body_with double_add (0, 8) s1 = Continue s2"
    unfolding s2_def s1_def s0_def by (simp add: row_defs del: double_add.simps)
  have c2: "astar_current s2 = (0, 2)"
    unfolding s2_def s1_def s0_def astar_current_def by (simp add: row_defs del: double_add.simps)
  have sel2: "astar_selects s2"
    unfolding astar_selects_def astar_current_def s2_def s1_def s0_def
    by (simp add: row_defs del: double_add.simps)
  have f2: "totalCost (cell (a_grid s2) (0, 2)) = Fin (289215538570199 / 35184372088832)"
    unfolding s2_def s1_def s0_def by (simp add: row_defs del: double_add.simps)
  have lt: "totalCost (cell (a_grid s2) (astar_current s2))
      < totalCost (cell (a_grid s1) (astar_current s1))"
    unfolding c1 c2 f1 f2 by simp
  have r1: "astar_reaches_with double_add (0, 8) s0 s1"
    by (rule astar_reaches_with.reaches_with_step
        [OF astar_reaches_with.reaches_with_start n0 b0])
  have r2: "astar_reaches_with double_add (0, 8) s2 s2"
    by (rule astar_reaches_with.reaches_with_start)
  have "\<exists>t t1 t'.
        astar_reaches_with double_add (0, 8) s0 t
      \<and> astar_selects t \<and> astar_current t = (0, 1)
      \<and> totalCost (cell (a_grid t) (0, 1)) = Fin (4627448617123185 / 562949953421312)
      \<and> astar_body_with double_add (0, 8) t = Continue t1
      \<and> astar_reaches_with double_add (0, 8) t1 t'
      \<and> astar_selects t' \<and> astar_current t' = (0, 2)
      \<and> totalCost (cell (a_grid t') (0, 2)) = Fin (289215538570199 / 35184372088832)
      \<and> totalCost (cell (a_grid t') (astar_current t'))
          < totalCost (cell (a_grid t) (astar_current t))"
    by (intro exI [of _ s1] exI [of _ s2] conjI) (rule r1 sel1 c1 f1 b1 r2 sel2 c2 f2 lt)+
  then show ?thesis
    unfolding s0_def by (intro conjI) (rule 1 2 3 4)+
qed

end
